theory Spec2Isabelle
  imports Main
begin

section \<open>Data model of \<^verbatim>\<open>script.js\<close>\<close>

text \<open>
  A cell of the board holds \<^verbatim>\<open>null\<close>, \<^verbatim>\<open>'X'\<close> or \<^verbatim>\<open>'O'\<close>; the board is a
  JavaScript array of cells. \<open>None\<close> is \<^verbatim>\<open>null\<close>.
\<close>

datatype mark = MarkX | MarkO

type_synonym board = "mark option list"

type_synonym line = "nat \<times> nat \<times> nat"

text \<open>
  The scores of the search are the JavaScript numbers \<^verbatim>\<open>-Infinity\<close>, \<^verbatim>\<open>+Infinity\<close>
  and the integers \<^verbatim>\<open>-10\<close>, \<^verbatim>\<open>0\<close>, \<^verbatim>\<open>10\<close>. The order is the one of \<^verbatim>\<open><\<close>, \<^verbatim>\<open><=\<close>,
  \<^verbatim>\<open>Math.max\<close> and \<^verbatim>\<open>Math.min\<close> on these numbers.
\<close>

datatype jsnum = NegInf | Fin int | PosInf

instantiation jsnum :: linorder
begin

fun less_eq_jsnum :: "jsnum \<Rightarrow> jsnum \<Rightarrow> bool" where
  "less_eq_jsnum NegInf y = True"
| "less_eq_jsnum (Fin a) NegInf = False"
| "less_eq_jsnum (Fin a) (Fin b) = (a \<le> b)"
| "less_eq_jsnum (Fin a) PosInf = True"
| "less_eq_jsnum PosInf NegInf = False"
| "less_eq_jsnum PosInf (Fin b) = False"
| "less_eq_jsnum PosInf PosInf = True"

definition less_jsnum :: "jsnum \<Rightarrow> jsnum \<Rightarrow> bool" where
  "less_jsnum x y = (x \<le> y \<and> \<not> y \<le> x)"

instance
proof
  fix x y z :: jsnum
  show "(x < y) = (x \<le> y \<and> \<not> y \<le> x)"
    by (simp add: less_jsnum_def)
  show "x \<le> x"
    by (cases x) simp_all
  show "x \<le> y \<Longrightarrow> y \<le> z \<Longrightarrow> x \<le> z"
    by (cases x; cases y; cases z) simp_all
  show "x \<le> y \<Longrightarrow> y \<le> x \<Longrightarrow> x = y"
    by (cases x; cases y) simp_all
  show "x \<le> y \<or> y \<le> x"
    by (cases x; cases y) auto
qed

end

lemma less_jsnum_simps [simp]:
  "NegInf < Fin a" "NegInf < PosInf" "Fin a < PosInf"
  "(Fin a < Fin b) = (a < b)"
  "\<not> x < NegInf" "\<not> PosInf < x"
  by (cases x; auto simp: less_jsnum_def)+

lemma less_eq_jsnum_simps [simp]:
  "x \<le> PosInf" "(x \<le> NegInf) = (x = NegInf)" "(PosInf \<le> x) = (x = PosInf)"
  by (cases x; simp)+

text \<open>The result object \<^verbatim>\<open>{ score, index }\<close> of \<^verbatim>\<open>minimax\<close>; a terminal board gives
  no \<^verbatim>\<open>index\<close> property.\<close>

record move =
  score :: jsnum
  index :: "nat option"

text \<open>The result object of \<^verbatim>\<open>evaluateBoard\<close>: \<^verbatim>\<open>{ winner, line }\<close>, \<^verbatim>\<open>{ draw: true }\<close> or
  \<^verbatim>\<open>{ ongoing: true }\<close>.\<close>

datatype outcome = Won mark line | Draw | Ongoing

section \<open>Board evaluation\<close>

definition WINS :: "line list" where
  "WINS = [(0,1,2), (3,4,5), (6,7,8),
           (0,3,6), (1,4,7), (2,5,8),
           (0,4,8), (2,4,6)]"

text \<open>Reading \<^verbatim>\<open>b[i]\<close>: an index beyond the array gives \<^verbatim>\<open>undefined\<close>, which is falsy
  like \<^verbatim>\<open>null\<close> and never equal to a mark.\<close>

definition cell :: "board \<Rightarrow> nat \<Rightarrow> mark option" where
  "cell b i = (if i < length b then b ! i else None)"

text \<open>The loop \<^verbatim>\<open>for (const line of WINS)\<close> with its early return.\<close>

fun first_win :: "board \<Rightarrow> line list \<Rightarrow> (mark \<times> line) option" where
  "first_win b [] = None"
| "first_win b ((a, b2, c) # ls) =
     (case cell b a of
        None \<Rightarrow> first_win b ls
      | Some m \<Rightarrow>
          if cell b a = cell b b2 \<and> cell b a = cell b c then Some (m, (a, b2, c))
          else first_win b ls)"

definition evaluateBoard :: "board \<Rightarrow> outcome" where
  "evaluateBoard b =
     (case first_win b WINS of
        Some (m, l) \<Rightarrow> Won m l
      | None \<Rightarrow> if list_all (\<lambda>v. v \<noteq> None) b then Draw else Ongoing)"

section \<open>The search\<close>

text \<open>\<^verbatim>\<open>b.map((v,i) => v ? null : i).filter(i => i !== null)\<close>: the indices of the
  falsy cells, in increasing order.\<close>

definition empty_cells :: "board \<Rightarrow> nat list" where
  "empty_cells b = filter (\<lambda>i. b ! i = None) [0..<length b]"

text \<open>
  The assignment \<^verbatim>\<open>b[idx] = v\<close>. Within the array it overwrites the cell. Beyond its
  end JavaScript grows the array up to \<^verbatim>\<open>idx\<close>; the cells in between read as
  \<^verbatim>\<open>undefined\<close> and are modelled as empty. The search only ever assigns at an index
  taken from \<^verbatim>\<open>empty\<close>, which lies within the array (lemma \<open>empty_cells_iff\<close>).
\<close>

definition set_cell :: "board \<Rightarrow> nat \<Rightarrow> mark option \<Rightarrow> board" where
  "set_cell b i v =
     (if i < length b then b[i := v] else b @ replicate (i - length b) None @ [v])"

text \<open>\<^verbatim>\<open>player === 'X' ? 'O' : 'X'\<close>\<close>

fun other :: "mark \<Rightarrow> mark" where
  "other MarkX = MarkO"
| "other MarkO = MarkX"

text \<open>
  \<^verbatim>\<open>minimax(b, player, alpha, beta)\<close>. The global \<^verbatim>\<open>aiMark\<close> is the first parameter.
  The array \<^verbatim>\<open>b\<close> is shared and mutated by the search, so the board is threaded through:
  every call returns the array as it leaves it, next to its result object.
  \<open>minimax_loop\<close> is the loop \<^verbatim>\<open>for (const idx of empty)\<close> over the indices still to
  visit, with the current values of \<^verbatim>\<open>best\<close>, \<^verbatim>\<open>alpha\<close> and \<^verbatim>\<open>beta\<close>; \<^verbatim>\<open>break\<close>
  leaves it with \<^verbatim>\<open>best\<close>.
\<close>

function minimax :: "mark \<Rightarrow> board \<Rightarrow> mark \<Rightarrow> jsnum \<Rightarrow> jsnum \<Rightarrow> move \<times> board"
  and minimax_loop ::
    "mark \<Rightarrow> board \<Rightarrow> mark \<Rightarrow> jsnum \<Rightarrow> jsnum \<Rightarrow> move \<Rightarrow> nat list \<Rightarrow> move \<times> board"
where
  "minimax aiMark b player alpha beta =
     (case evaluateBoard b of
        Won w l \<Rightarrow>
          if w = aiMark then (\<lparr>score = Fin 10, index = None\<rparr>, b)
          else (\<lparr>score = Fin (- 10), index = None\<rparr>, b)
      | Draw \<Rightarrow> (\<lparr>score = Fin 0, index = None\<rparr>, b)
      | Ongoing \<Rightarrow>
          minimax_loop aiMark b player alpha beta
            \<lparr>score = (if player = aiMark then NegInf else PosInf),
             index = (case empty_cells b of [] \<Rightarrow> None | i # _ \<Rightarrow> Some i)\<rparr>
            (empty_cells b))"
| "minimax_loop aiMark b player alpha beta best [] = (best, b)"
| "minimax_loop aiMark b player alpha beta best (idx # rest) =
     (case minimax aiMark (set_cell b idx (Some player)) (other player) alpha beta of
        (next, b') \<Rightarrow>
          let b'' = set_cell b' idx None;
              withIdx = \<lparr>score = score next, index = Some idx\<rparr>;
              best' = (if player = aiMark
                       then (if score best < score withIdx then withIdx else best)
                       else (if score withIdx < score best then withIdx else best));
              alpha' = (if player = aiMark then max alpha (score withIdx) else alpha);
              beta' = (if player = aiMark then beta else min beta (score withIdx))
          in if beta' \<le> alpha' then (best', b'')
             else minimax_loop aiMark b'' player alpha' beta' best' rest)"
  by pat_completeness auto

text \<open>
  Termination. Every recursive call of \<^verbatim>\<open>minimax\<close> is made on a board with one more
  mark: the measure is the number of empty cells. The loop continues on the array the
  recursive call returns, so the proof first shows, for every call that returns, that the
  call leaves the array as it found it.
\<close>

definition count_empty :: "board \<Rightarrow> nat" where
  "count_empty b = length (filter (\<lambda>v. v = None) b)"

definition cleared :: "nat list \<Rightarrow> board \<Rightarrow> board" where
  "cleared idxs b = fold (\<lambda>i b. set_cell b i None) idxs b"

lemma empty_cells_iff: "i \<in> set (empty_cells b) \<longleftrightarrow> i < length b \<and> b ! i = None"
  by (auto simp: empty_cells_def)

lemma length_empty_cells: "length (empty_cells b) = count_empty b"
proof -
  have "filter (\<lambda>v. v = None) (map ((!) b) [0..<length b]) = map ((!) b) (empty_cells b)"
    by (simp add: filter_map empty_cells_def comp_def)
  then have "length (filter (\<lambda>v. v = None) (map ((!) b) [0..<length b])) = length (empty_cells b)"
    by simp
  then show ?thesis
    by (simp add: map_nth count_empty_def)
qed

lemma set_cell_in_range: "i < length b \<Longrightarrow> set_cell b i v = b[i := v]"
  by (simp add: set_cell_def)

lemma set_cell_overwrite: "set_cell (set_cell b i v) i w = set_cell b i w"
  by (auto simp: set_cell_def nth_append list_update_append)

lemma set_cell_shape:
  "\<exists>pre post. (\<forall>u. set_cell b i u = pre @ u # post) \<and>
     count_empty b \<le> count_empty (pre @ None # post)"
proof (cases "i < length b")
  case True
  have a: "\<forall>u. set_cell b i u = take i b @ u # drop (Suc i) b"
    using True by (simp add: set_cell_def upd_conv_take_nth_drop)
  have "b = take i b @ b ! i # drop (Suc i) b"
    using True by (simp add: id_take_nth_drop)
  then have "count_empty b = count_empty (take i b @ b ! i # drop (Suc i) b)"
    by simp
  also have "\<dots> \<le> count_empty (take i b @ None # drop (Suc i) b)"
    by (simp add: count_empty_def)
  finally show ?thesis using a by blast
next
  case False
  have a: "\<forall>u. set_cell b i u = (b @ replicate (i - length b) None) @ u # []"
    using False by (simp add: set_cell_def)
  have "count_empty b \<le> count_empty ((b @ replicate (i - length b) None) @ None # [])"
    by (simp add: count_empty_def)
  then show ?thesis using a by blast
qed

lemma count_empty_set_cell_Some:
  "count_empty (set_cell b i None) = Suc (count_empty (set_cell b i (Some p)))"
proof -
  obtain pre post where "\<forall>u. set_cell b i u = pre @ u # post"
    using set_cell_shape[of b i] by blast
  then show ?thesis by (simp add: count_empty_def)
qed

lemma count_empty_set_cell_None: "count_empty b \<le> count_empty (set_cell b i None)"
proof -
  obtain pre post where "\<forall>u. set_cell b i u = pre @ u # post"
    and "count_empty b \<le> count_empty (pre @ None # post)"
    using set_cell_shape[of b i] by blast
  then show ?thesis by simp
qed

lemma count_empty_cleared: "count_empty b \<le> count_empty (cleared idxs b)"
proof (induction idxs arbitrary: b)
  case Nil
  show ?case by (simp add: cleared_def)
next
  case (Cons i idxs)
  have "count_empty b \<le> count_empty (set_cell b i None)"
    by (rule count_empty_set_cell_None)
  also have "\<dots> \<le> count_empty (cleared idxs (set_cell b i None))"
    by (rule Cons.IH)
  finally show ?case by (simp add: cleared_def)
qed

lemma cleared_empty_cells: "set idxs \<subseteq> set (empty_cells b) \<Longrightarrow> cleared idxs b = b"
proof (induction idxs)
  case Nil
  show ?case by (simp add: cleared_def)
next
  case (Cons i idxs)
  then have "i < length b" "b ! i = None"
    by (simp_all add: empty_cells_iff)
  then have "set_cell b i None = b"
    by (simp add: set_cell_in_range list_update_same_conv)
  with Cons show ?case by (simp add: cleared_def)
qed

lemma minimax_frame_dom:
  "minimax_minimax_loop_dom (Inl (aiMark, b, player, alpha, beta)) \<Longrightarrow>
     snd (minimax aiMark b player alpha beta) = b"
  "minimax_minimax_loop_dom (Inr (aiMark, b, player, alpha, beta, best, idxs)) \<Longrightarrow>
     \<exists>k. snd (minimax_loop aiMark b player alpha beta best idxs) = cleared (take k idxs) b"
proof (induction rule: minimax_minimax_loop.pinduct)
  case (1 aiMark b player alpha beta)
  show ?case
  proof (cases "evaluateBoard b")
    case Ongoing
    from 1(2)[OF Ongoing] obtain k where
      "snd (minimax_loop aiMark b player alpha beta
         \<lparr>score = if player = aiMark then NegInf else PosInf,
            index = case empty_cells b of [] \<Rightarrow> None | i # x \<Rightarrow> Some i\<rparr>
         (empty_cells b)) = cleared (take k (empty_cells b)) b"
      by blast
    moreover have "cleared (take k (empty_cells b)) b = b"
      by (rule cleared_empty_cells) (rule set_take_subset)
    ultimately show ?thesis
      using 1(1) Ongoing by (simp add: minimax.psimps)
  qed (use 1(1) in \<open>simp_all add: minimax.psimps\<close>)
next
  case (2 aiMark b player alpha beta best)
  then show ?case by (simp add: minimax_loop.psimps cleared_def)
next
  case (3 aiMark b player alpha beta best idx rest)
  obtain nxt b' where r: "minimax aiMark (set_cell b idx (Some player)) (other player) alpha beta = (nxt, b')"
    by (cases "minimax aiMark (set_cell b idx (Some player)) (other player) alpha beta")
  with 3(2) have b': "b' = set_cell b idx (Some player)" by simp
  then have b'': "set_cell b' idx None = set_cell b idx None"
    by (simp add: set_cell_overwrite)
  let ?w = "\<lparr>score = score nxt, index = Some idx\<rparr>"
  let ?best = "(if player = aiMark
            then if score best < score ?w then ?w else best
            else if score ?w < score best then ?w else best)"
  let ?al = "(if player = aiMark then max alpha (score ?w) else alpha)"
  let ?be = "(if player = aiMark then beta else min beta (score ?w))"
  show ?case
  proof (cases "?be \<le> ?al")
    case True
    then have "snd (minimax_loop aiMark b player alpha beta best (idx # rest)) = cleared (take 1 (idx # rest)) b"
      using 3(1) r b'' by (simp add: minimax_loop.psimps cleared_def Let_def)
    then show ?thesis by blast
  next
    case False
    from 3(3)[OF r[symmetric] refl refl refl refl refl False]
    obtain k where "snd (minimax_loop aiMark (set_cell b' idx None) player ?al ?be ?best rest) =
        cleared (take k rest) (set_cell b' idx None)"
      by blast
    then have "snd (minimax_loop aiMark b player alpha beta best (idx # rest)) = cleared (take (Suc k) (idx # rest)) b"
      using 3(1) r b'' False by (simp add: minimax_loop.psimps cleared_def Let_def)
    then show ?thesis by blast
  qed
qed

text \<open>
  The calls are ordered by the number of empty cells of the board once the indices still
  to visit are cleared, then a call of \<^verbatim>\<open>minimax\<close> above the loop it starts, then by
  the number of indices still to visit.
\<close>

termination minimax
proof (relation "measures
   [case_sum (\<lambda>(aiMark, b, player, alpha, beta). count_empty b)
             (\<lambda>(aiMark, b, player, alpha, beta, best, idxs). count_empty (cleared idxs b)),
    case_sum (\<lambda>_. 1) (\<lambda>_. 0),
    case_sum (\<lambda>_. 0) (\<lambda>(aiMark, b, player, alpha, beta, best, idxs). length idxs)]",
    goal_cases)
  case 1
  show ?case by simp
next
  case (2 aiMark b player alpha beta)
  have "cleared (empty_cells b) b = b"
    by (rule cleared_empty_cells) simp
  then show ?case by simp
next
  case (3 aiMark b player alpha beta best idx rest)
  have "count_empty (set_cell b idx (Some player)) < count_empty (set_cell b idx None)"
    using count_empty_set_cell_Some[of b idx player] by simp
  also have "\<dots> \<le> count_empty (cleared rest (set_cell b idx None))"
    by (rule count_empty_cleared)
  finally show ?case by (simp add: cleared_def)
next
  case (4 aiMark b player alpha beta best idx rest x y xa xb xc xd xe)
  have "snd (minimax aiMark (set_cell b idx (Some player)) (other player) alpha beta) =
      set_cell b idx (Some player)"
    using 4 by (intro minimax_frame_dom(1)) simp
  with 4 have "y = set_cell b idx (Some player)"
    by (metis snd_conv)
  then have "xa = set_cell b idx None"
    using 4(2) by (simp add: set_cell_overwrite)
  then show ?case by (simp add: cleared_def)
qed

declare minimax.simps [simp del]

text \<open>The frame property again, now for every call.\<close>

lemma minimax_frame: "snd (minimax ai b p al be) = b"
  and minimax_loop_frame:
    "\<exists>k. snd (minimax_loop ai b p al be best idxs) = cleared (take k idxs) b"
proof (induction ai b p al be and ai b p al be best idxs rule: minimax_minimax_loop.induct)
  case (1 aiMark b player alpha beta)
  show ?case
  proof (cases "evaluateBoard b")
    case Ongoing
    from 1[OF Ongoing] obtain k where
      "snd (minimax_loop aiMark b player alpha beta
         \<lparr>score = if player = aiMark then NegInf else PosInf,
            index = case empty_cells b of [] \<Rightarrow> None | i # x \<Rightarrow> Some i\<rparr>
         (empty_cells b)) = cleared (take k (empty_cells b)) b"
      by blast
    moreover have "cleared (take k (empty_cells b)) b = b"
      by (rule cleared_empty_cells) (rule set_take_subset)
    ultimately show ?thesis
      using Ongoing by (simp add: minimax.simps)
  qed (simp_all add: minimax.simps)
next
  case (2 aiMark b player alpha beta best)
  then show ?case by (simp add: cleared_def)
next
  case (3 aiMark b player alpha beta best idx rest)
  obtain nxt b' where
    r: "minimax aiMark (set_cell b idx (Some player)) (other player) alpha beta = (nxt, b')"
    by (cases "minimax aiMark (set_cell b idx (Some player)) (other player) alpha beta")
  with 3(1) have b': "b' = set_cell b idx (Some player)" by simp
  then have b'': "set_cell b' idx None = set_cell b idx None"
    by (simp add: set_cell_overwrite)
  let ?w = "\<lparr>score = score nxt, index = Some idx\<rparr>"
  let ?best = "(if player = aiMark
            then if score best < score ?w then ?w else best
            else if score ?w < score best then ?w else best)"
  let ?al = "(if player = aiMark then max alpha (score ?w) else alpha)"
  let ?be = "(if player = aiMark then beta else min beta (score ?w))"
  show ?case
  proof (cases "?be \<le> ?al")
    case True
    then have "snd (minimax_loop aiMark b player alpha beta best (idx # rest)) =
        cleared (take 1 (idx # rest)) b"
      using r b'' by (simp add: cleared_def Let_def)
    then show ?thesis by blast
  next
    case False
    from 3(2)[OF r[symmetric] refl refl refl refl refl False]
    obtain k where
      "snd (minimax_loop aiMark (set_cell b' idx None) player ?al ?be ?best rest) =
        cleared (take k rest) (set_cell b' idx None)"
      by blast
    then have "snd (minimax_loop aiMark b player alpha beta best (idx # rest)) =
        cleared (take (Suc k) (idx # rest)) b"
      using r b'' False by (simp add: cleared_def Let_def)
    then show ?thesis by blast
  qed
qed

text \<open>
  One round of the loop, with the board restored by the recursive call: a form of the
  loop equation that no longer mentions the returned array.
\<close>

lemma minimax_loop_Cons:
  "minimax_loop ai b p al be best (idx # rest) =
     (let s = score (fst (minimax ai (set_cell b idx (Some p)) (other p) al be));
          best' = (if p = ai
                   then (if score best < s then \<lparr>score = s, index = Some idx\<rparr> else best)
                   else (if s < score best then \<lparr>score = s, index = Some idx\<rparr> else best));
          al' = (if p = ai then max al s else al);
          be' = (if p = ai then be else min be s)
      in if be' \<le> al' then (best', set_cell b idx None)
         else minimax_loop ai (set_cell b idx None) p al' be' best' rest)"
proof -
  obtain nxt b' where
    r: "minimax ai (set_cell b idx (Some p)) (other p) al be = (nxt, b')"
    by (cases "minimax ai (set_cell b idx (Some p)) (other p) al be")
  then have "b' = set_cell b idx (Some p)"
    using minimax_frame [of ai "set_cell b idx (Some p)" "other p" al be] by simp
  then have "set_cell b' idx None = set_cell b idx None"
    by (simp add: set_cell_overwrite)
  with r show ?thesis
    by (simp add: Let_def)
qed

declare minimax_loop.simps(2) [simp del]

lemma set_cell_empty_None: "i \<in> set (empty_cells b) \<Longrightarrow> set_cell b i None = b"
  by (simp add: empty_cells_iff set_cell_in_range list_update_same_conv)

lemma count_empty_child:
  assumes "idx \<in> set (empty_cells b)"
  shows "count_empty (set_cell b idx (Some p)) < count_empty b"
proof -
  have "count_empty (set_cell b idx None) = Suc (count_empty (set_cell b idx (Some p)))"
    by (rule count_empty_set_cell_Some)
  with assms show ?thesis by (simp add: set_cell_empty_None)
qed

section \<open>Two variants of the search, for stating its properties\<close>

text \<open>
  The search with a budget for the depth of the recursion: \<open>d\<close> is the number of nested
  calls of \<^verbatim>\<open>minimax\<close> still allowed below the current one. The code is the one of
  \<open>minimax\<close>; a recursive call with no budget left gives \<open>None\<close>.
\<close>

fun minimax_depth ::
    "nat \<Rightarrow> mark \<Rightarrow> board \<Rightarrow> mark \<Rightarrow> jsnum \<Rightarrow> jsnum \<Rightarrow> (move \<times> board) option"
  and minimax_loop_depth ::
    "nat \<Rightarrow> mark \<Rightarrow> board \<Rightarrow> mark \<Rightarrow> jsnum \<Rightarrow> jsnum \<Rightarrow> move \<Rightarrow> nat list \<Rightarrow> (move \<times> board) option"
where
  "minimax_depth d aiMark b player alpha beta =
     (case evaluateBoard b of
        Won w l \<Rightarrow>
          if w = aiMark then Some (\<lparr>score = Fin 10, index = None\<rparr>, b)
          else Some (\<lparr>score = Fin (- 10), index = None\<rparr>, b)
      | Draw \<Rightarrow> Some (\<lparr>score = Fin 0, index = None\<rparr>, b)
      | Ongoing \<Rightarrow>
          minimax_loop_depth d aiMark b player alpha beta
            \<lparr>score = (if player = aiMark then NegInf else PosInf),
             index = (case empty_cells b of [] \<Rightarrow> None | i # _ \<Rightarrow> Some i)\<rparr>
            (empty_cells b))"
| "minimax_loop_depth d aiMark b player alpha beta best [] = Some (best, b)"
| "minimax_loop_depth 0 aiMark b player alpha beta best (idx # rest) = None"
| "minimax_loop_depth (Suc d) aiMark b player alpha beta best (idx # rest) =
     (case minimax_depth d aiMark (set_cell b idx (Some player)) (other player) alpha beta of
        None \<Rightarrow> None
      | Some (next, b') \<Rightarrow>
          let b'' = set_cell b' idx None;
              withIdx = \<lparr>score = score next, index = Some idx\<rparr>;
              best' = (if player = aiMark
                       then (if score best < score withIdx then withIdx else best)
                       else (if score withIdx < score best then withIdx else best));
              alpha' = (if player = aiMark then max alpha (score withIdx) else alpha);
              beta' = (if player = aiMark then beta else min beta (score withIdx))
          in if beta' \<le> alpha' then Some (best', b'')
             else minimax_loop_depth (Suc d) aiMark b'' player alpha' beta' best' rest)"

declare minimax_depth.simps [simp del]

text \<open>
  The search without pruning: the recursion of \<^verbatim>\<open>minimax\<close> with \<^verbatim>\<open>alpha\<close>, \<^verbatim>\<open>beta\<close>
  and the line \<^verbatim>\<open>if (beta <= alpha) break\<close> removed, so that every empty cell is tried
  at every node. Only the score is kept.
\<close>

function plain_score :: "mark \<Rightarrow> board \<Rightarrow> mark \<Rightarrow> jsnum" where
  "plain_score ai b player =
     (case evaluateBoard b of
        Won w l \<Rightarrow> if w = ai then Fin 10 else Fin (- 10)
      | Draw \<Rightarrow> Fin 0
      | Ongoing \<Rightarrow>
          fold (\<lambda>idx best.
                  let s = plain_score ai (set_cell b idx (Some player)) (other player)
                  in if player = ai then (if best < s then s else best)
                     else (if s < best then s else best))
            (empty_cells b)
            (if player = ai then NegInf else PosInf))"
  by pat_completeness auto

termination plain_score
  by (relation "measure (\<lambda>(ai, b, player). count_empty b)") (simp_all add: count_empty_child)

declare plain_score.simps [simp del]

section \<open>The computer's move and the game session\<close>

text \<open>\<^verbatim>\<open>board.filter(Boolean).length\<close>\<close>

definition count_marks :: "board \<Rightarrow> nat" where
  "count_marks b = length (filter (\<lambda>v. v \<noteq> None) b)"

definition opening_order :: "nat list" where
  "opening_order = [4, 0, 2, 6, 8, 1, 3, 5, 7]"

text \<open>
  The index that \<^verbatim>\<open>aiMove\<close> hands to \<^verbatim>\<open>placeMark\<close>, with the board as the search
  leaves it: \<^verbatim>\<open>[4,0,2,6,8,1,3,5,7].find(i => !board[i])\<close> when at most one cell is
  marked, the \<^verbatim>\<open>index\<close> of \<^verbatim>\<open>minimax(board, aiMark, -Infinity, Infinity)\<close> otherwise.
  \<open>None\<close> is \<^verbatim>\<open>undefined\<close>: \<^verbatim>\<open>find\<close> found no index, or the result object has no
  \<^verbatim>\<open>index\<close>.
\<close>

definition selectMove :: "mark \<Rightarrow> board \<Rightarrow> nat option \<times> board" where
  "selectMove ai b =
     (if count_marks b \<le> 1 then (find (\<lambda>i. cell b i = None) opening_order, b)
      else (case minimax ai b ai NegInf PosInf of (r, b') \<Rightarrow> (index r, b')))"

text \<open>
  The game state of the script: the globals \<^verbatim>\<open>board\<close>, \<^verbatim>\<open>current\<close>, \<^verbatim>\<open>gameOver\<close>,
  \<^verbatim>\<open>mode\<close>, \<^verbatim>\<open>humanMark\<close> and \<^verbatim>\<open>aiMark\<close>. The page elements (cell texts, disabled
  flags, status line) only display this state and are left out.
\<close>

datatype mode = Pvp | Ai

record session =
  board :: board
  current :: mark
  gameOver :: bool
  mode :: mode
  humanMark :: mark
  aiMark :: mark

definition placeMark :: "nat \<Rightarrow> mark \<Rightarrow> session \<Rightarrow> session" where
  "placeMark idx m s = s\<lparr>board := set_cell (board s) idx (Some m)\<rparr>"

text \<open>\<^verbatim>\<open>handleEndIfAny(result)\<close> returns whether the game ended, and sets \<^verbatim>\<open>gameOver\<close>.\<close>

definition handleEndIfAny :: "outcome \<Rightarrow> session \<Rightarrow> bool \<times> session" where
  "handleEndIfAny result s =
     (case result of
        Won w l \<Rightarrow> (True, s\<lparr>gameOver := True\<rparr>)
      | Draw \<Rightarrow> (True, s\<lparr>gameOver := True\<rparr>)
      | Ongoing \<Rightarrow> (False, s))"

text \<open>
  \<^verbatim>\<open>aiMove()\<close>. With an \<^verbatim>\<open>undefined\<close> index \<^verbatim>\<open>placeMark\<close> throws a TypeError at
  \<^verbatim>\<open>cells[idx].textContent\<close>: the result \<open>None\<close>.
\<close>

definition aiMove :: "session \<Rightarrow> session option" where
  "aiMove s =
     (case selectMove (aiMark s) (board s) of
        (None, b') \<Rightarrow> None
      | (Some idx, b') \<Rightarrow>
          (case handleEndIfAny
                  (evaluateBoard (board (placeMark idx (aiMark s) (s\<lparr>board := b'\<rparr>))))
                  (placeMark idx (aiMark s) (s\<lparr>board := b'\<rparr>)) of
             (ended, s') \<Rightarrow>
               if ended then Some s' else Some (s'\<lparr>current := other (current s')\<rparr>)))"

text \<open>\<^verbatim>\<open>init()\<close>, with the values read from the page as parameters: \<^verbatim>\<open>modeEl.value\<close>
  and \<^verbatim>\<open>getSelectedMark()\<close>.\<close>

definition init :: "mode \<Rightarrow> mark \<Rightarrow> session option" where
  "init m hm =
     (let s = \<lparr>board = replicate 9 None, current = MarkX, gameOver = False, mode = m,
                humanMark = hm, aiMark = (if hm = MarkX then MarkO else MarkX)\<rparr>
      in if m = Ai \<and> hm = MarkO then aiMove s else Some s)"

text \<open>
  \<^verbatim>\<open>onCellClick(e)\<close> for a click on the cell with \<^verbatim>\<open>data-index\<close> \<open>idx\<close>. The script
  starts the computer's move with \<^verbatim>\<open>setTimeout(aiMove, 150)\<close>; the model runs it at
  once, that is, the timer fires before the next click is handled.
\<close>

definition onCellClick :: "nat \<Rightarrow> session \<Rightarrow> session option" where
  "onCellClick idx s =
     (if gameOver s then Some s
      else if cell (board s) idx \<noteq> None then Some s
      else
        (case handleEndIfAny (evaluateBoard (board (placeMark idx (current s) s)))
                (placeMark idx (current s) s) of
           (ended, s') \<Rightarrow>
             if ended then Some s'
             else
               let s'' = s'\<lparr>current := other (current s')\<rparr>
               in if mode s'' = Ai \<and> current s'' = aiMark s'' \<and> \<not> gameOver s''
                  then aiMove s'' else Some s''))"

text \<open>A sequence of clicks, from a state on; an exception ends the run.\<close>

fun clicks :: "nat list \<Rightarrow> session \<Rightarrow> session option" where
  "clicks [] s = Some s"
| "clicks (idx # rest) s =
     (case onCellClick idx s of None \<Rightarrow> None | Some s' \<Rightarrow> clicks rest s')"

text \<open>
  A game against the computer: \<^verbatim>\<open>init\<close> in the mode \<^verbatim>\<open>'ai'\<close> with the mark \<open>hm\<close>
  chosen by the human player, then the clicks \<open>cs\<close>.
\<close>

definition play :: "mark \<Rightarrow> nat list \<Rightarrow> session option" where
  "play hm cs = (case init Ai hm of None \<Rightarrow> None | Some s \<Rightarrow> clicks cs s)"

section \<open>Notions used in the statements\<close>

text \<open>A line is completed when its three cells hold the same mark.\<close>

definition completed :: "board \<Rightarrow> line \<Rightarrow> bool" where
  "completed b l =
     (case l of (a, b2, c) \<Rightarrow> cell b a \<noteq> None \<and> cell b a = cell b b2 \<and> cell b a = cell b c)"

text \<open>The scores a search can return: those of the terminal boards.\<close>

definition scores :: "jsnum set" where
  "scores = {Fin (- 10), Fin 0, Fin 10}"

text \<open>
  What a search with the window \<open>(a, b)\<close> promises about its result \<open>r\<close>, given the
  score \<open>v\<close> of the search without pruning: at or below \<open>a\<close> it is an upper bound of
  \<open>v\<close>, at or above \<open>b\<close> a lower bound, and in between it is \<open>v\<close>.
\<close>

definition approx :: "jsnum \<Rightarrow> jsnum \<Rightarrow> jsnum \<Rightarrow> jsnum \<Rightarrow> bool" where
  "approx a b v r \<longleftrightarrow> (r \<le> a \<longrightarrow> v \<le> r) \<and> (a < r \<and> r < b \<longrightarrow> r = v) \<and> (b \<le> r \<longrightarrow> r \<le> v)"

text \<open>
  The board after the first click of a human player with the mark X, on the cell \<open>idx\<close>,
  and the reply of the opening shortcut: the centre, or the corner 0 when the centre is
  taken.
\<close>

definition first_round :: "nat \<Rightarrow> board" where
  "first_round idx =
     set_cell (set_cell (replicate 9 None) idx (Some MarkX)) (if idx = 4 then 0 else 4) (Some MarkO)"

text \<open>
  The invariant of a game against the computer. A finished game is a draw or won by the
  computer. In a running game the human player is to move, on the empty board (with
  the mark X) or on a board from which the opponent of the computer cannot force a win:
  the score of the search without pruning is at least \<open>0\<close>.
\<close>

definition unbeaten :: "session \<Rightarrow> bool" where
  "unbeaten s \<longleftrightarrow>
     mode s = Ai \<and> aiMark s = other (humanMark s) \<and> length (board s) = 9 \<and>
     (if gameOver s
      then evaluateBoard (board s) = Draw \<or> (\<exists>l. evaluateBoard (board s) = Won (aiMark s) l)
      else current s = humanMark s \<and> evaluateBoard (board s) = Ongoing \<and>
           ((board s = replicate 9 None \<and> humanMark s = MarkX) \<or>
            (1 \<le> count_marks (board s) \<and>
             Fin 0 \<le> plain_score (aiMark s) (board s) (humanMark s))))"

section \<open>Correctness of the evaluator\<close>

lemma first_win_Cons:
  "first_win b (l # ls) =
     (if completed b l then Some (the (cell b (fst l)), l) else first_win b ls)"
  by (cases l) (auto simp: completed_def split: option.splits)

lemma first_win_None: "first_win b ls = None \<longleftrightarrow> (\<forall>l\<in>set ls. \<not> completed b l)"
  by (induction ls) (simp_all add: first_win_Cons del: first_win.simps(2))

lemma first_win_Some:
  "first_win b ls = Some (m, l) \<Longrightarrow>
     \<exists>pre post. ls = pre @ l # post \<and> (\<forall>l'\<in>set pre. \<not> completed b l') \<and>
       completed b l \<and> cell b (fst l) = Some m"
proof (induction ls)
  case Nil
  then show ?case by simp
next
  case (Cons x ls)
  show ?case
  proof (cases "completed b x")
    case True
    then have "cell b (fst x) \<noteq> None"
      by (cases x) (auto simp: completed_def)
    with Cons.prems True have "l = x" "cell b (fst x) = Some m"
      by (auto simp: first_win_Cons simp del: first_win.simps(2))
    then have "x # ls = [] @ l # ls \<and> (\<forall>l'\<in>set []. \<not> completed b l') \<and>
       completed b l \<and> cell b (fst l) = Some m"
      using True by simp
    then show ?thesis by blast
  next
    case False
    then have "first_win b (x # ls) = first_win b ls"
      by (simp add: first_win_Cons del: first_win.simps(2))
    with Cons obtain pre post where "ls = pre @ l # post" "\<forall>l'\<in>set pre. \<not> completed b l'"
       "completed b l" "cell b (fst l) = Some m"
      by auto
    then have "x # ls = (x # pre) @ l # post \<and> (\<forall>l'\<in>set (x # pre). \<not> completed b l') \<and>
       completed b l \<and> cell b (fst l) = Some m"
      using False by simp
    then show ?thesis by blast
  qed
qed

text \<open>
  C2. The lines are checked in the order rows, columns, diagonals. On a 9-cell board:
  if some line is completed, \<^verbatim>\<open>evaluateBoard\<close> returns \<open>Won\<close> with the first completed
  line of that order and the mark on it; if no line is completed and no cell is empty
  it returns \<open>Draw\<close>; if no line is completed and some cell is empty it returns
  \<open>Ongoing\<close>.
\<close>

theorem evaluateBoard_correct:
  "WINS = [(0,1,2), (3,4,5), (6,7,8), (0,3,6), (1,4,7), (2,5,8), (0,4,8), (2,4,6)]
   \<and> (length b = 9 \<longrightarrow>
       ((\<exists>l\<in>set WINS. completed b l) \<longrightarrow>
          (\<exists>m l pre post. evaluateBoard b = Won m l \<and> WINS = pre @ l # post \<and>
             (\<forall>l'\<in>set pre. \<not> completed b l') \<and> completed b l \<and> b ! fst l = Some m))
       \<and> ((\<forall>l\<in>set WINS. \<not> completed b l) \<and> (\<forall>i<9. b ! i \<noteq> None) \<longrightarrow>
            evaluateBoard b = Draw)
       \<and> ((\<forall>l\<in>set WINS. \<not> completed b l) \<and> (\<exists>i<9. b ! i = None) \<longrightarrow>
            evaluateBoard b = Ongoing))"
proof (intro conjI impI)
  show "WINS = [(0,1,2), (3,4,5), (6,7,8), (0,3,6), (1,4,7), (2,5,8), (0,4,8), (2,4,6)]"
    by (simp add: WINS_def)
next
  assume len: "length b = 9" and ex: "\<exists>l\<in>set WINS. completed b l"
  then have "first_win b WINS \<noteq> None"
    by (simp add: first_win_None)
  then obtain m l where f: "first_win b WINS = Some (m, l)"
    by (cases "first_win b WINS") auto
  from first_win_Some [OF f] obtain pre post where p: "WINS = pre @ l # post"
    "\<forall>l'\<in>set pre. \<not> completed b l'" "completed b l" "cell b (fst l) = Some m"
    by blast
  have "l \<in> set WINS" using p(1) by (metis in_set_conv_decomp)
  then have "fst l < 9" by (auto simp: WINS_def)
  with p(4) len have "b ! fst l = Some m" by (simp add: cell_def)
  moreover have "evaluateBoard b = Won m l" using f by (simp add: evaluateBoard_def)
  ultimately show "\<exists>m l pre post. evaluateBoard b = Won m l \<and> WINS = pre @ l # post \<and>
             (\<forall>l'\<in>set pre. \<not> completed b l') \<and> completed b l \<and> b ! fst l = Some m"
    using p(1-3) by blast
next
  assume len: "length b = 9"
    and a: "(\<forall>l\<in>set WINS. \<not> completed b l) \<and> (\<forall>i<9. b ! i \<noteq> None)"
  then have "first_win b WINS = None" by (simp add: first_win_None)
  moreover have "list_all (\<lambda>v. v \<noteq> None) b"
    using a len by (auto simp: list_all_length)
  ultimately show "evaluateBoard b = Draw" by (simp add: evaluateBoard_def)
next
  assume len: "length b = 9"
    and a: "(\<forall>l\<in>set WINS. \<not> completed b l) \<and> (\<exists>i<9. b ! i = None)"
  then have "first_win b WINS = None" by (simp add: first_win_None)
  moreover have "\<not> list_all (\<lambda>v. v \<noteq> None) b"
    using a len by (auto simp: list_all_length)
  ultimately show "evaluateBoard b = Ongoing" by (simp add: evaluateBoard_def)
qed

theorem evaluateBoard_correct_witness:
  "length [Some MarkO, None, Some MarkX, Some MarkO, Some MarkX, None, Some MarkX, None, None] = 9
   \<and> (\<exists>l\<in>set WINS.
        completed [Some MarkO, None, Some MarkX, Some MarkO, Some MarkX, None, Some MarkX, None, None] l)
   \<and> (\<exists>m l pre post.
        evaluateBoard [Some MarkO, None, Some MarkX, Some MarkO, Some MarkX, None, Some MarkX, None, None]
          = Won m l
        \<and> WINS = pre @ l # post
        \<and> (\<forall>l'\<in>set pre.
             \<not> completed [Some MarkO, None, Some MarkX, Some MarkO, Some MarkX, None, Some MarkX, None, None] l')
        \<and> completed [Some MarkO, None, Some MarkX, Some MarkO, Some MarkX, None, Some MarkX, None, None] l
        \<and> [Some MarkO, None, Some MarkX, Some MarkO, Some MarkX, None, Some MarkX, None, None] ! fst l
            = Some m)
   \<and> evaluateBoard [Some MarkO, None, Some MarkX, Some MarkO, Some MarkX, None, Some MarkX, None, None]
        = Won MarkX (2, 4, 6)"
proof -
  let ?b = "[Some MarkO, None, Some MarkX, Some MarkO, Some MarkX, None, Some MarkX, None, None]"
  have c: "completed ?b (2, 4, 6)"
    by (simp add: completed_def cell_def)
  have "(2, 4, 6) \<in> set WINS" by (simp add: WINS_def)
  with c have ex: "\<exists>l\<in>set WINS. completed ?b l" by blast
  have e: "evaluateBoard ?b = Won MarkX (2, 4, 6)"
    by (simp add: evaluateBoard_def WINS_def cell_def)
  from evaluateBoard_correct [of ?b] ex e show ?thesis by simp
qed

section \<open>Terminal scoring\<close>

text \<open>
  C5. On a board that \<^verbatim>\<open>evaluateBoard\<close> classifies as won or drawn, \<^verbatim>\<open>minimax\<close> returns
  the score \<open>10\<close> when the winner is the computer's mark, \<open>-10\<close> when it is the other
  mark, and \<open>0\<close> for a draw, whatever the player to move, \<open>alpha\<close> and \<open>beta\<close> are.
\<close>

theorem minimax_terminal_score:
  "(evaluateBoard b = Won w l \<longrightarrow>
      score (fst (minimax ai b player alpha beta)) = (if w = ai then Fin 10 else Fin (- 10)))
   \<and> (evaluateBoard b = Draw \<longrightarrow> score (fst (minimax ai b player alpha beta)) = Fin 0)"
  by (simp add: minimax.simps)

theorem minimax_terminal_score_witness:
  "evaluateBoard [Some MarkX, Some MarkX, Some MarkX, None, Some MarkO, Some MarkO, None, None, None]
     = Won MarkX (0, 1, 2)
   \<and> score (fst (minimax MarkO
        [Some MarkX, Some MarkX, Some MarkX, None, Some MarkO, Some MarkO, None, None, None]
        MarkO NegInf PosInf)) = Fin (- 10)
   \<and> evaluateBoard [Some MarkX, Some MarkO, Some MarkX, Some MarkO, Some MarkX, Some MarkO,
        Some MarkO, Some MarkX, Some MarkO] = Draw
   \<and> score (fst (minimax MarkO
        [Some MarkX, Some MarkO, Some MarkX, Some MarkO, Some MarkX, Some MarkO,
         Some MarkO, Some MarkX, Some MarkO] MarkX (Fin 3) (Fin 2))) = Fin 0"
proof -
  let ?b = "[Some MarkX, Some MarkX, Some MarkX, None, Some MarkO, Some MarkO, None, None, None]"
  let ?d = "[Some MarkX, Some MarkO, Some MarkX, Some MarkO, Some MarkX, Some MarkO,
        Some MarkO, Some MarkX, Some MarkO]"
  have w: "evaluateBoard ?b = Won MarkX (0, 1, 2)"
    by (simp add: evaluateBoard_def WINS_def cell_def)
  have d: "evaluateBoard ?d = Draw"
    by (simp add: evaluateBoard_def WINS_def cell_def)
  from w d
    minimax_terminal_score [of ?b MarkX "(0, 1, 2)" MarkO MarkO NegInf PosInf]
    minimax_terminal_score [of ?d MarkX "(0, 1, 2)" MarkO MarkX "Fin 3" "Fin 2"]
  show ?thesis by simp
qed

section \<open>The search restores the board\<close>

text \<open>
  C6. After \<^verbatim>\<open>minimax(b, player, alpha, beta)\<close> returns, the array \<^verbatim>\<open>b\<close> holds in every
  cell the value it held before the call: each trial mark is taken back, also when
  the loop is left through \<^verbatim>\<open>break\<close>.
\<close>

theorem minimax_leaves_board: "snd (minimax ai b player alpha beta) = b"
  by (rule minimax_frame)

section \<open>Termination and depth of the recursion\<close>

lemma minimax_loop_depth_complete:
  assumes "set idxs \<subseteq> set (empty_cells b)" and "count_empty b \<le> Suc d"
    and "\<And>idx al be. idx \<in> set idxs \<Longrightarrow>
           minimax_depth d ai (set_cell b idx (Some p)) (other p) al be =
             Some (minimax ai (set_cell b idx (Some p)) (other p) al be)"
  shows "minimax_loop_depth (Suc d) ai b p al be best idxs =
           Some (minimax_loop ai b p al be best idxs)"
  using assms
proof (induction idxs arbitrary: al be best)
  case Nil
  show ?case by simp
next
  case (Cons idx rest)
  obtain nxt b' where r: "minimax ai (set_cell b idx (Some p)) (other p) al be = (nxt, b')"
    by (cases "minimax ai (set_cell b idx (Some p)) (other p) al be")
  then have b': "b' = set_cell b idx (Some p)"
    using minimax_frame [of ai "set_cell b idx (Some p)" "other p" al be] by simp
  have b'': "set_cell b' idx None = b"
    using Cons.prems(1) by (simp add: b' set_cell_overwrite set_cell_empty_None)
  have d: "minimax_depth d ai (set_cell b idx (Some p)) (other p) al be = Some (nxt, b')"
    using Cons.prems(3) [of idx al be] r by simp
  have ih: "\<And>al be best. minimax_loop_depth (Suc d) ai b p al be best rest =
      Some (minimax_loop ai b p al be best rest)"
    using Cons.prems by (intro Cons.IH) simp_all
  show ?case
    using d r b''
    by (simp add: minimax_loop.simps(2) Let_def ih)
qed

lemma minimax_depth_complete:
  "count_empty b \<le> d \<Longrightarrow>
     minimax_depth d ai b p al be = Some (minimax ai b p al be)"
proof (induction d arbitrary: b p al be)
  case 0
  then have "empty_cells b = []"
    using length_empty_cells [of b] by simp
  then show ?case
    by (simp add: minimax_depth.simps minimax.simps split: outcome.splits)
next
  case (Suc d)
  have "minimax_loop_depth (Suc d) ai b p al be best (empty_cells b) =
      Some (minimax_loop ai b p al be best (empty_cells b))" for best
  proof (rule minimax_loop_depth_complete)
    show "set (empty_cells b) \<subseteq> set (empty_cells b)" by simp
    show "count_empty b \<le> Suc d" by fact
    fix idx al be
    assume "idx \<in> set (empty_cells b)"
    then have "count_empty (set_cell b idx (Some p)) < count_empty b"
      by (rule count_empty_child)
    with Suc.prems have "count_empty (set_cell b idx (Some p)) \<le> d" by simp
    then show "minimax_depth d ai (set_cell b idx (Some p)) (other p) al be =
             Some (minimax ai (set_cell b idx (Some p)) (other p) al be)"
      by (rule Suc.IH)
  qed
  then show ?case
    by (cases "evaluateBoard b")
      (simp_all only: minimax_depth.simps [of "Suc d" ai b] minimax.simps [of ai b]
        outcome.case if_distrib [of Some] if_cancel)
qed

lemma count_empty_le_length: "count_empty b \<le> length b"
  by (simp add: count_empty_def)

text \<open>
  C9. \<open>minimax\<close> is a total function: its recursion is well-founded, each recursive
  call being made on a board with strictly fewer empty cells. On a 9-cell board the run
  whose recursion depth is capped at 9 nested calls completes, with the result of
  \<open>minimax\<close>.
\<close>

theorem minimax_terminates:
  "length b = 9 \<Longrightarrow>
     minimax_depth 9 ai b player alpha beta = Some (minimax ai b player alpha beta)
     \<and> count_empty b \<le> 9
     \<and> (\<forall>idx\<in>set (empty_cells b).
           count_empty (set_cell b idx (Some player)) < count_empty b)"
  using count_empty_le_length [of b]
  by (simp add: minimax_depth_complete count_empty_child)

theorem minimax_terminates_witness:
  "length [Some MarkX, Some MarkO, None, Some MarkO, Some MarkX, None, None, None, None] = 9
   \<and> minimax_depth 9 MarkO
        [Some MarkX, Some MarkO, None, Some MarkO, Some MarkX, None, None, None, None]
        MarkO NegInf PosInf
      = Some (minimax MarkO
          [Some MarkX, Some MarkO, None, Some MarkO, Some MarkX, None, None, None, None]
          MarkO NegInf PosInf)
   \<and> minimax_depth 9 MarkO
        [Some MarkX, Some MarkO, None, Some MarkO, Some MarkX, None, None, None, None]
        MarkO NegInf PosInf
      = Some (\<lparr>score = Fin 0, index = Some 8\<rparr>,
          [Some MarkX, Some MarkO, None, Some MarkO, Some MarkX, None, None, None, None])"
proof -
  let ?b = "[Some MarkX, Some MarkO, None, Some MarkO, Some MarkX, None, None, None, None]"
  have l: "length ?b = 9" by simp
  have "minimax_depth 9 MarkO ?b MarkO NegInf PosInf =
      Some (\<lparr>score = Fin 0, index = Some 8\<rparr>, ?b)"
    by code_simp
  with l minimax_terminates [OF l, of MarkO MarkO NegInf PosInf] show ?thesis by simp
qed

section \<open>The sentinel scores do not escape\<close>

lemma evaluateBoard_Ongoing_empty: "evaluateBoard b = Ongoing \<Longrightarrow> empty_cells b \<noteq> []"
proof -
  assume "evaluateBoard b = Ongoing"
  then have "\<not> list_all (\<lambda>v. v \<noteq> None) b"
    by (auto simp: evaluateBoard_def split: option.splits if_splits)
  then obtain i where "i < length b" "b ! i = None"
    by (auto simp: list_all_iff in_set_conv_nth)
  then have "i \<in> set (empty_cells b)"
    by (simp add: empty_cells_iff)
  then show ?thesis by auto
qed

lemma minimax_score_finite:
  "score (fst (minimax ai b p al be)) \<in> scores"
  and minimax_loop_score_finite:
  "score best \<in> scores \<or> (idxs \<noteq> [] \<and> score best = (if p = ai then NegInf else PosInf)) \<Longrightarrow>
     score (fst (minimax_loop ai b p al be best idxs)) \<in> scores"
proof (induction ai b p al be and ai b p al be best idxs rule: minimax_minimax_loop.induct)
  case (1 aiMark b player alpha beta)
  show ?case
  proof (cases "evaluateBoard b")
    case Ongoing
    then have "empty_cells b \<noteq> []" by (rule evaluateBoard_Ongoing_empty)
    with 1[OF Ongoing] Ongoing show ?thesis
      by (simp add: minimax.simps)
  qed (simp_all add: minimax.simps scores_def)
next
  case (2 aiMark b player alpha beta best)
  then show ?case by simp
next
  case (3 aiMark b player alpha beta best idx rest)
  let ?s = "score (fst (minimax aiMark (set_cell b idx (Some player)) (other player) alpha beta))"
  let ?best = "(if player = aiMark
                   then (if score best < ?s then \<lparr>score = ?s, index = Some idx\<rparr> else best)
                   else (if ?s < score best then \<lparr>score = ?s, index = Some idx\<rparr> else best))"
  let ?al = "(if player = aiMark then max alpha ?s else alpha)"
  let ?be = "(if player = aiMark then beta else min beta ?s)"
  have s: "?s \<in> scores" by (rule 3(1))
  have best: "score ?best \<in> scores"
    using s 3(3) by (auto simp: scores_def split: if_splits)
  show ?case
  proof (cases "?be \<le> ?al")
    case True
    then show ?thesis using best by (simp add: minimax_loop_Cons Let_def)
  next
    case False
    have "score (fst (minimax_loop aiMark
        (set_cell (snd (minimax aiMark (set_cell b idx (Some player)) (other player) alpha beta)) idx None)
        player ?al ?be ?best rest)) \<in> scores"
      by (rule 3(2)[OF prod.collapse refl refl _ _ _ False]) (use best in \<open>simp_all\<close>)
    then show ?thesis
      using False by (simp add: minimax_loop_Cons Let_def minimax_frame set_cell_overwrite)
  qed
qed

text \<open>
  C10. On an ongoing board the score that \<^verbatim>\<open>minimax\<close> returns is \<open>-10\<close>, \<open>0\<close> or \<open>10\<close>,
  never the \<^verbatim>\<open>-Infinity\<close> or \<^verbatim>\<open>+Infinity\<close> that \<^verbatim>\<open>best\<close> starts with, for every
  player to move, \<open>alpha\<close> and \<open>beta\<close>.
\<close>

theorem no_sentinel_score:
  "evaluateBoard b = Ongoing \<Longrightarrow>
     score (fst (minimax ai b player alpha beta)) \<in> {Fin (- 10), Fin 0, Fin 10}"
  using minimax_score_finite [of ai b player alpha beta] by (simp add: scores_def)

theorem no_sentinel_score_witness:
  "evaluateBoard [Some MarkX, Some MarkO, None, Some MarkO, Some MarkX, None, None, None, None]
       = Ongoing
   \<and> score (fst (minimax MarkO
        [Some MarkX, Some MarkO, None, Some MarkO, Some MarkX, None, None, None, None]
        MarkX (Fin 5) (Fin 2))) \<in> {Fin (- 10), Fin 0, Fin 10}"
proof -
  let ?b = "[Some MarkX, Some MarkO, None, Some MarkO, Some MarkX, None, None, None, None]"
  have e: "evaluateBoard ?b = Ongoing"
    by (simp add: evaluateBoard_def WINS_def cell_def)
  from e no_sentinel_score [OF e, of MarkO MarkX "Fin 5" "Fin 2"] show ?thesis by blast
qed

section \<open>The opening shortcut\<close>

lemma set_opening_order: "set opening_order = {0..<9}"
  by (auto simp: opening_order_def)

lemma find_opening:
  assumes "length b = 9" and "i < 9" and "b ! i = None"
  shows "\<exists>k pre post. find (\<lambda>i. cell b i = None) opening_order = Some k \<and>
           opening_order = pre @ k # post \<and> k < 9 \<and> b ! k = None \<and>
           (\<forall>j\<in>set pre. b ! j \<noteq> None)"
proof -
  have in_range: "\<And>j. j \<in> set opening_order \<Longrightarrow> cell b j = b ! j"
    using assms(1) by (simp add: set_opening_order cell_def)
  have "\<exists>j\<in>set opening_order. cell b j = None"
    using assms by (intro bexI [of _ i]) (simp_all add: set_opening_order cell_def)
  then obtain k where k: "find (\<lambda>i. cell b i = None) opening_order = Some k"
    by (cases "find (\<lambda>i. cell b i = None) opening_order") (auto simp: find_None_iff)
  then obtain n where n: "n < length opening_order" "cell b (opening_order ! n) = None"
    "k = opening_order ! n" "\<forall>j<n. cell b (opening_order ! j) \<noteq> None"
    by (auto simp: find_Some_iff)
  have kin: "k \<in> set opening_order" using n by simp
  have split: "opening_order = take n opening_order @ k # drop (Suc n) opening_order"
    using n by (simp add: id_take_nth_drop)
  have "\<forall>j\<in>set (take n opening_order). b ! j \<noteq> None"
  proof
    fix j assume j: "j \<in> set (take n opening_order)"
    then obtain m where "m < n" "j = opening_order ! m"
      using n(1) by (auto simp: in_set_conv_nth)
    with n(4) have "cell b j \<noteq> None" by simp
    moreover have "j \<in> set opening_order" using j by (rule in_set_takeD)
    ultimately show "b ! j \<noteq> None" by (simp add: in_range)
  qed
  moreover have "k < 9" using kin by (simp add: set_opening_order)
  moreover have "b ! k = None" using n(2,3) kin in_range by simp
  ultimately show ?thesis using k split by blast
qed

lemma count_marks_full:
  assumes "\<forall>i<length b. b ! i \<noteq> None"
  shows "count_marks b = length b"
proof -
  have "\<forall>v\<in>set b. v \<noteq> None" using assms by (auto simp: in_set_conv_nth)
  then show ?thesis by (simp add: count_marks_def)
qed

text \<open>
  C4. On a 9-cell board with at most one mark the move chosen is the first index of
  \<open>[4,0,2,6,8,1,3,5,7]\<close> whose cell is empty: the indices before it in that order are
  occupied, no search is run and the board is returned as it is. On the empty board the
  move is index 4, for either mark of the computer.
\<close>

theorem opening_shortcut:
  "opening_order = [4, 0, 2, 6, 8, 1, 3, 5, 7]
   \<and> (length b = 9 \<and> count_marks b \<le> 1 \<longrightarrow>
       (\<exists>k pre post. selectMove ai b = (Some k, b) \<and>
          opening_order = pre @ k # post \<and> b ! k = None \<and>
          (\<forall>j\<in>set pre. b ! j \<noteq> None)))
   \<and> selectMove ai (replicate 9 None) = (Some 4, replicate 9 None)"
proof (intro conjI impI)
  show "opening_order = [4, 0, 2, 6, 8, 1, 3, 5, 7]"
    by (simp add: opening_order_def)
  show "selectMove ai (replicate 9 None) = (Some 4, replicate 9 None)"
    by (simp add: selectMove_def count_marks_def opening_order_def cell_def)
  assume a: "length b = 9 \<and> count_marks b \<le> 1"
  have "\<not> (\<forall>i<length b. b ! i \<noteq> None)"
  proof
    assume "\<forall>i<length b. b ! i \<noteq> None"
    then have "count_marks b = length b" by (rule count_marks_full)
    with a show False by arith
  qed
  then obtain i where "i < length b" "b ! i = None" by blast
  then have "i < 9" "b ! i = None" using a by simp_all
  with a obtain k pre post where k: "find (\<lambda>i. cell b i = None) opening_order = Some k"
    "opening_order = pre @ k # post" "b ! k = None" "\<forall>j\<in>set pre. b ! j \<noteq> None"
    using find_opening [of b i] by blast
  have "selectMove ai b = (Some k, b)"
    using a k(1) by (simp add: selectMove_def)
  with k(2-4)
  show "\<exists>k pre post. selectMove ai b = (Some k, b) \<and>
          opening_order = pre @ k # post \<and> b ! k = None \<and>
          (\<forall>j\<in>set pre. b ! j \<noteq> None)"
    by blast
qed

theorem opening_shortcut_witness:
  "length [None, None, None, None, Some MarkX, None, None, None, None] = 9
   \<and> count_marks [None, None, None, None, Some MarkX, None, None, None, None] \<le> 1
   \<and> (\<exists>k pre post.
        selectMove MarkO [None, None, None, None, Some MarkX, None, None, None, None]
          = (Some k, [None, None, None, None, Some MarkX, None, None, None, None])
        \<and> opening_order = pre @ k # post
        \<and> [None, None, None, None, Some MarkX, None, None, None, None] ! k = None
        \<and> (\<forall>j\<in>set pre. [None, None, None, None, Some MarkX, None, None, None, None] ! j \<noteq> None))"
  using opening_shortcut [of "[None, None, None, None, Some MarkX, None, None, None, None]" MarkO]
  by (simp add: count_marks_def)

section \<open>The chosen move is legal\<close>

lemma minimax_loop_index:
  "index (fst (minimax_loop ai b p al be best idxs)) = index best \<or>
   (\<exists>i\<in>set idxs. index (fst (minimax_loop ai b p al be best idxs)) = Some i)"
proof (induction idxs arbitrary: b al be best)
  case Nil
  show ?case by simp
next
  case (Cons idx rest)
  let ?s = "score (fst (minimax ai (set_cell b idx (Some p)) (other p) al be))"
  let ?best = "(if p = ai
                   then (if score best < ?s then \<lparr>score = ?s, index = Some idx\<rparr> else best)
                   else (if ?s < score best then \<lparr>score = ?s, index = Some idx\<rparr> else best))"
  let ?al = "(if p = ai then max al ?s else al)"
  let ?be = "(if p = ai then be else min be ?s)"
  have best: "index ?best = index best \<or> index ?best = Some idx"
    by simp
  show ?case
  proof (cases "?be \<le> ?al")
    case True
    then have "fst (minimax_loop ai b p al be best (idx # rest)) = ?best"
      by (simp add: minimax_loop_Cons Let_def)
    with best show ?thesis by auto
  next
    case False
    then have "fst (minimax_loop ai b p al be best (idx # rest)) =
        fst (minimax_loop ai (set_cell b idx None) p ?al ?be ?best rest)"
      by (simp add: minimax_loop_Cons Let_def)
    with best Cons.IH [of "set_cell b idx None" ?al ?be ?best] show ?thesis
      by auto
  qed
qed

lemma minimax_index:
  assumes "evaluateBoard b = Ongoing"
  shows "\<exists>i\<in>set (empty_cells b). index (fst (minimax ai b p al be)) = Some i"
proof -
  from assms obtain e es where e: "empty_cells b = e # es"
    using evaluateBoard_Ongoing_empty [of b] by (cases "empty_cells b") auto
  let ?best = "\<lparr>score = (if p = ai then NegInf else PosInf), index = Some e\<rparr>"
  have m: "minimax ai b p al be = minimax_loop ai b p al be ?best (e # es)"
    using assms e by (simp add: minimax.simps)
  from minimax_loop_index [of ai b p al be ?best "e # es"]
  show ?thesis unfolding m e by auto
qed

lemma selectMove_eq:
  "selectMove ai b =
     (if count_marks b \<le> 1 then (find (\<lambda>i. cell b i = None) opening_order, b)
      else (index (fst (minimax ai b ai NegInf PosInf)), b))"
  using minimax_frame [of ai b ai NegInf PosInf]
  by (simp add: selectMove_def case_prod_beta)

text \<open>
  C7. On a 9-cell board that \<^verbatim>\<open>evaluateBoard\<close> classifies as ongoing (not won, not
  drawn, so with an empty cell) the move selector returns the index of an empty cell,
  on the opening path as well as on the search path.
\<close>

theorem move_legal:
  assumes "length b = 9" and "evaluateBoard b = Ongoing"
  shows "\<exists>i. fst (selectMove ai b) = Some i \<and> i < 9 \<and> b ! i = None"
proof (cases "count_marks b \<le> 1")
  case True
  from assms(2) obtain i where "i \<in> set (empty_cells b)"
    using evaluateBoard_Ongoing_empty [of b] by (cases "empty_cells b") auto
  then have "i < 9" "b ! i = None" using assms(1) by (simp_all add: empty_cells_iff)
  with assms(1) obtain k where "find (\<lambda>i. cell b i = None) opening_order = Some k"
    "k < 9" "b ! k = None"
    using find_opening [of b i] by blast
  with True show ?thesis by (simp add: selectMove_def)
next
  case False
  from minimax_index [OF assms(2), of ai ai NegInf PosInf]
  obtain i where "i \<in> set (empty_cells b)"
    "index (fst (minimax ai b ai NegInf PosInf)) = Some i"
    by blast
  with False assms(1) show ?thesis
    by (simp add: selectMove_eq empty_cells_iff)
qed

theorem move_legal_witness:
  "length [Some MarkX, Some MarkO, None, Some MarkO, Some MarkX, None, None, None, None] = 9
   \<and> evaluateBoard [Some MarkX, Some MarkO, None, Some MarkO, Some MarkX, None, None, None, None]
       = Ongoing
   \<and> (\<exists>i. fst (selectMove MarkO
              [Some MarkX, Some MarkO, None, Some MarkO, Some MarkX, None, None, None, None]) = Some i
         \<and> i < 9
         \<and> [Some MarkX, Some MarkO, None, Some MarkO, Some MarkX, None, None, None, None] ! i = None)"
proof -
  let ?b = "[Some MarkX, Some MarkO, None, Some MarkO, Some MarkX, None, None, None, None]"
  have e: "evaluateBoard ?b = Ongoing"
    by (simp add: evaluateBoard_def WINS_def cell_def)
  have l: "length ?b = 9" by simp
  from l e move_legal [OF l e, of MarkO] show ?thesis by blast
qed

section \<open>A blocking move\<close>

text \<open>
  C8. On the board with X on 0 and 4, O on 1 and 3 and the other cells empty, with the
  computer playing O, the move chosen is index 8, which blocks the diagonal 0-4-8.
\<close>

theorem blocking_move:
  "fst (selectMove MarkO
     [Some MarkX, Some MarkO, None, Some MarkO, Some MarkX, None, None, None, None]) = Some 8"
  by code_simp

section \<open>Soundness of the pruning\<close>

lemma fold_max_init:
  "fold (\<lambda>i m. max m (c i)) idxs (x::jsnum) = max x (fold (\<lambda>i m. max m (c i)) idxs NegInf)"
proof (induction idxs arbitrary: x)
  case Nil
  show ?case by (simp add: max_def)
next
  case (Cons i idxs)
  have "fold (\<lambda>i m. max m (c i)) (i # idxs) x = max (max x (c i)) (fold (\<lambda>i m. max m (c i)) idxs NegInf)"
    using Cons [of "max x (c i)"] by simp
  moreover have "fold (\<lambda>i m. max m (c i)) (i # idxs) NegInf = max (c i) (fold (\<lambda>i m. max m (c i)) idxs NegInf)"
    using Cons [of "max NegInf (c i)"] by (simp add: max_def)
  ultimately show ?case by (simp add: max.assoc)
qed

lemma fold_min_init:
  "fold (\<lambda>i m. min m (c i)) idxs (x::jsnum) = min x (fold (\<lambda>i m. min m (c i)) idxs PosInf)"
proof (induction idxs arbitrary: x)
  case Nil
  show ?case by (simp add: min_def)
next
  case (Cons i idxs)
  have "fold (\<lambda>i m. min m (c i)) (i # idxs) x = min (min x (c i)) (fold (\<lambda>i m. min m (c i)) idxs PosInf)"
    using Cons [of "min x (c i)"] by simp
  moreover have "fold (\<lambda>i m. min m (c i)) (i # idxs) PosInf = min (c i) (fold (\<lambda>i m. min m (c i)) idxs PosInf)"
    using Cons [of "min PosInf (c i)"] by (simp add: min_def)
  ultimately show ?case by (simp add: min.assoc)
qed

lemma approx_lower:
  "approx a b x r \<Longrightarrow> y \<le> x \<Longrightarrow> (a < x \<longrightarrow> y = x) \<Longrightarrow> a < b \<Longrightarrow> approx a b y r"
  by (auto simp: approx_def)

lemma approx_raise:
  "approx a b x r \<Longrightarrow> x \<le> y \<Longrightarrow> (x < b \<longrightarrow> y = x) \<Longrightarrow> a < b \<Longrightarrow> approx a b y r"
  by (auto simp: approx_def)

lemma approx_widen_left:
  "approx s b x r \<Longrightarrow> a \<le> s \<Longrightarrow> s \<le> x \<Longrightarrow> approx a b x r"
  by (auto simp: approx_def)

lemma approx_widen_right:
  "approx a s x r \<Longrightarrow> s \<le> b \<Longrightarrow> x \<le> s \<Longrightarrow> approx a b x r"
  by (auto simp: approx_def)

lemma approx_max_step:
  fixes a b m s c R r :: jsnum
  assumes "a < b" "m \<le> a" "approx a b c s" "\<not> b \<le> max a s"
    and "approx (max a s) b (max (max m s) R) r"
  shows "approx a b (max (max m c) R) r"
proof (cases "s \<le> a")
  case True
  then have c: "c \<le> s" using assms(3) by (simp add: approx_def)
  have "max a s = a" using True by (simp add: max_def)
  with assms(5) have ih: "approx a b (max (max m s) R) r" by simp
  have le: "max (max m c) R \<le> max (max m s) R"
    using c by (auto simp: max_def)
  have eq: "a < max (max m s) R \<longrightarrow> max (max m c) R = max (max m s) R"
    using c True assms(2) by (auto simp: max_def)
  from ih le eq assms(1) show ?thesis by (rule approx_lower)
next
  case False
  then have as: "a < s" by simp
  moreover have "s < b" using assms(4) by (simp add: max_def split: if_splits)
  ultimately have sc: "s = c" using assms(3) by (simp add: approx_def)
  have "max a s = s" "max m s = s" using as assms(2) by (auto simp: max_def)
  with assms(5) have ih: "approx s b (max (max m c) R) r" by (simp add: sc)
  have le: "s \<le> max (max m c) R" by (simp add: sc le_max_iff_disj)
  from as have "a \<le> s" by simp
  with ih show ?thesis using le by (rule approx_widen_left)
qed

lemma approx_min_step:
  fixes a b m s c R r :: jsnum
  assumes "a < b" "b \<le> m" "approx a b c s" "\<not> min b s \<le> a"
    and "approx a (min b s) (min (min m s) R) r"
  shows "approx a b (min (min m c) R) r"
proof (cases "b \<le> s")
  case True
  then have c: "s \<le> c" using assms(3) by (simp add: approx_def)
  have "min b s = b" using True by (simp add: min_def)
  with assms(5) have ih: "approx a b (min (min m s) R) r" by simp
  have le: "min (min m s) R \<le> min (min m c) R"
    using c by (auto simp: min_def)
  have eq: "min (min m s) R < b \<longrightarrow> min (min m c) R = min (min m s) R"
    using c True assms(2) by (auto simp: min_def)
  from ih le eq assms(1) show ?thesis by (rule approx_raise)
next
  case False
  then have sb: "s < b" by simp
  moreover have "a < s" using assms(4) by (simp add: min_def split: if_splits)
  ultimately have sc: "s = c" using assms(3) by (simp add: approx_def)
  have "min b s = s" "min m s = s" using sb assms(2) by (auto simp: min_def)
  with assms(5) have ih: "approx a s (min (min m c) R) r" by (simp add: sc)
  have le: "min (min m c) R \<le> s" by (simp add: sc min_le_iff_disj)
  from sb have "s \<le> b" by simp
  with ih show ?thesis using le by (rule approx_widen_right)
qed

lemma approx_max_break:
  fixes a b m s c R :: jsnum
  assumes "a < b" "m \<le> a" "approx a b c s" "b \<le> max a s"
  shows "approx a b (max (max m c) R) (max m s)"
proof -
  have bs: "b \<le> s" using assms(1,4) by (auto simp: max_def split: if_splits)
  then have "s \<le> c" using assms(3) by (simp add: approx_def)
  moreover have "max m s = s" using bs assms(1,2) by (auto simp: max_def)
  ultimately show ?thesis using bs assms(1) by (auto simp: approx_def le_max_iff_disj)
qed

lemma approx_min_break:
  fixes a b m s c R :: jsnum
  assumes "a < b" "b \<le> m" "approx a b c s" "min b s \<le> a"
  shows "approx a b (min (min m c) R) (min m s)"
proof -
  have sa: "s \<le> a" using assms(1,4) by (auto simp: min_def split: if_splits)
  then have "c \<le> s" using assms(3) by (simp add: approx_def)
  moreover have "min m s = s" using sa assms(1,2) by (auto simp: min_def)
  ultimately show ?thesis using sa assms(1) by (auto simp: approx_def min_le_iff_disj)
qed

lemma step_max: "(if (m::jsnum) < s then s else m) = max m s"
  by (auto simp: max_def)

lemma step_min: "(if (s::jsnum) < m then s else m) = min m s"
  by (auto simp: min_def)

lemma approx_refl: "approx a b v v"
  by (simp add: approx_def)

lemma minimax_loop_max_approx:
  assumes "set idxs \<subseteq> set (empty_cells b)"
    and "\<And>idx al be. idx \<in> set idxs \<Longrightarrow> al < be \<Longrightarrow>
           approx al be (c idx)
             (score (fst (minimax ai (set_cell b idx (Some ai)) (other ai) al be)))"
    and "al < be" and "score best \<le> al"
  shows "approx al be (max (score best) (fold (\<lambda>i m. max m (c i)) idxs NegInf))
           (score (fst (minimax_loop ai b ai al be best idxs)))"
  using assms
proof (induction idxs arbitrary: al best)
  case Nil
  show ?case by (simp add: max_def approx_refl)
next
  case (Cons idx rest)
  let ?s = "score (fst (minimax ai (set_cell b idx (Some ai)) (other ai) al be))"
  let ?best = "if score best < ?s then \<lparr>score = ?s, index = Some idx\<rparr> else best"
  let ?R = "fold (\<lambda>i m. max m (c i)) rest NegInf"
  have b: "set_cell b idx None = b"
    using Cons.prems(1) by (simp add: set_cell_empty_None)
  have child: "approx al be (c idx) ?s"
    using Cons.prems(2,3) by simp
  have best: "score ?best = max (score best) ?s"
    by (auto simp: max_def)
  have V: "max (score best) (fold (\<lambda>i m. max m (c i)) (idx # rest) NegInf)
      = max (max (score best) (c idx)) ?R"
    using fold_max_init [of c rest "c idx"] by (simp add: max.assoc max_def [of NegInf])
  show ?case
  proof (cases "be \<le> max al ?s")
    case True
    then have "score (fst (minimax_loop ai b ai al be best (idx # rest))) = max (score best) ?s"
      using best by (simp add: minimax_loop_Cons Let_def)
    with approx_max_break [OF Cons.prems(3,4) child True, of ?R] V show ?thesis
      by simp
  next
    case False
    then have "max al ?s < be" by (simp add: not_le)
    have ih: "approx (max al ?s) be (max (score ?best) ?R)
        (score (fst (minimax_loop ai b ai (max al ?s) be ?best rest)))"
    proof (rule Cons.IH)
      show "set rest \<subseteq> set (empty_cells b)" using Cons.prems(1) by simp
      show "\<And>idx al be. idx \<in> set rest \<Longrightarrow> al < be \<Longrightarrow>
           approx al be (c idx)
             (score (fst (minimax ai (set_cell b idx (Some ai)) (other ai) al be)))"
        using Cons.prems(2) by simp
      show "max al ?s < be" by fact
      show "score ?best \<le> max al ?s"
        unfolding best using Cons.prems(4) by (auto simp: max_def)
    qed
    have "minimax_loop ai b ai al be best (idx # rest) =
        minimax_loop ai b ai (max al ?s) be ?best rest"
      using False b by (simp add: minimax_loop_Cons Let_def)
    with approx_max_step [OF Cons.prems(3,4) child False, of ?R] ih best V show ?thesis
      by simp
  qed
qed

lemma minimax_loop_min_approx:
  assumes "set idxs \<subseteq> set (empty_cells b)"
    and "\<And>idx al be. idx \<in> set idxs \<Longrightarrow> al < be \<Longrightarrow>
           approx al be (c idx)
             (score (fst (minimax ai (set_cell b idx (Some p)) (other p) al be)))"
    and "p \<noteq> ai" and "al < be" and "be \<le> score best"
  shows "approx al be (min (score best) (fold (\<lambda>i m. min m (c i)) idxs PosInf))
           (score (fst (minimax_loop ai b p al be best idxs)))"
  using assms
proof (induction idxs arbitrary: be best)
  case Nil
  show ?case by (simp add: min_def approx_refl)
next
  case (Cons idx rest)
  let ?s = "score (fst (minimax ai (set_cell b idx (Some p)) (other p) al be))"
  let ?best = "if ?s < score best then \<lparr>score = ?s, index = Some idx\<rparr> else best"
  let ?R = "fold (\<lambda>i m. min m (c i)) rest PosInf"
  have b: "set_cell b idx None = b"
    using Cons.prems(1) by (simp add: set_cell_empty_None)
  have child: "approx al be (c idx) ?s"
    using Cons.prems(2,4) by simp
  have best: "score ?best = min (score best) ?s"
    by (auto simp: min_def)
  have V: "min (score best) (fold (\<lambda>i m. min m (c i)) (idx # rest) PosInf)
      = min (min (score best) (c idx)) ?R"
    using fold_min_init [of c rest "c idx"] by (simp add: min.assoc min_def [of PosInf])
  show ?case
  proof (cases "min be ?s \<le> al")
    case True
    then have "score (fst (minimax_loop ai b p al be best (idx # rest))) = min (score best) ?s"
      using best Cons.prems(3) by (simp add: minimax_loop_Cons Let_def)
    with approx_min_break [OF Cons.prems(4,5) child True, of ?R] V show ?thesis
      by simp
  next
    case False
    then have "al < min be ?s" by (simp add: not_le)
    have ih: "approx al (min be ?s) (min (score ?best) ?R)
        (score (fst (minimax_loop ai b p al (min be ?s) ?best rest)))"
    proof (rule Cons.IH)
      show "set rest \<subseteq> set (empty_cells b)" using Cons.prems(1) by simp
      show "\<And>idx al be. idx \<in> set rest \<Longrightarrow> al < be \<Longrightarrow>
           approx al be (c idx)
             (score (fst (minimax ai (set_cell b idx (Some p)) (other p) al be)))"
        using Cons.prems(2) by simp
      show "p \<noteq> ai" by fact
      show "al < min be ?s" by fact
      show "min be ?s \<le> score ?best"
        unfolding best using Cons.prems(5) by (auto simp: min_def)
    qed
    have "minimax_loop ai b p al be best (idx # rest) =
        minimax_loop ai b p al (min be ?s) ?best rest"
      using False b Cons.prems(3) by (simp add: minimax_loop_Cons Let_def)
    with approx_min_step [OF Cons.prems(4,5) child False, of ?R] ih best V show ?thesis
      by simp
  qed
qed

lemma minimax_approx:
  "al < be \<Longrightarrow> approx al be (plain_score ai b p) (score (fst (minimax ai b p al be)))"
proof (induction ai b p arbitrary: al be rule: plain_score.induct)
  case (1 ai b player)
  show ?case
  proof (cases "evaluateBoard b")
    case (Won w l)
    then show ?thesis by (simp add: minimax.simps plain_score.simps approx_refl)
  next
    case Draw
    then show ?thesis by (simp add: minimax.simps plain_score.simps approx_refl)
  next
    case Ongoing
    let ?c = "\<lambda>idx. plain_score ai (set_cell b idx (Some player)) (other player)"
    let ?best = "\<lparr>score = (if player = ai then NegInf else PosInf),
             index = (case empty_cells b of [] \<Rightarrow> None | i # _ \<Rightarrow> Some i)\<rparr>"
    have m: "minimax ai b player al be = minimax_loop ai b player al be ?best (empty_cells b)"
      using Ongoing by (simp add: minimax.simps)
    have child: "\<And>idx al be. idx \<in> set (empty_cells b) \<Longrightarrow> al < be \<Longrightarrow>
        approx al be (?c idx)
          (score (fst (minimax ai (set_cell b idx (Some player)) (other player) al be)))"
      using 1 Ongoing by simp
    show ?thesis
    proof (cases "player = ai")
      case True
      have "plain_score ai b player = fold (\<lambda>i m. max m (?c i)) (empty_cells b) NegInf"
        using Ongoing True by (simp add: plain_score.simps [of ai b] Let_def step_max)
      moreover have "approx al be
          (max (score ?best) (fold (\<lambda>i m. max m (?c i)) (empty_cells b) NegInf))
          (score (fst (minimax_loop ai b ai al be ?best (empty_cells b))))"
        using child True 1(2) by (intro minimax_loop_max_approx) simp_all
      ultimately show ?thesis using True m by (simp add: max_def)
    next
      case False
      have "plain_score ai b player = fold (\<lambda>i m. min m (?c i)) (empty_cells b) PosInf"
        using Ongoing False by (simp add: plain_score.simps [of ai b] Let_def step_min)
      moreover have "approx al be
          (min (score ?best) (fold (\<lambda>i m. min m (?c i)) (empty_cells b) PosInf))
          (score (fst (minimax_loop ai b player al be ?best (empty_cells b))))"
        using child False 1(2) by (intro minimax_loop_min_approx) simp_all
      ultimately show ?thesis using False m by (simp add: min_def)
    qed
  qed
qed

lemma minimax_root_score:
  "score (fst (minimax ai b p NegInf PosInf)) = plain_score ai b p"
proof -
  have "approx NegInf PosInf (plain_score ai b p) (score (fst (minimax ai b p NegInf PosInf)))"
    by (rule minimax_approx) simp
  then show ?thesis
    by (cases "score (fst (minimax ai b p NegInf PosInf))") (auto simp: approx_def)
qed

text \<open>
  C3. On a board that is not won and has an empty cell, \<^verbatim>\<open>minimax\<close> called with
  \<open>alpha = -Infinity\<close> and \<open>beta = +Infinity\<close> returns the score of the search
  without the \<^verbatim>\<open>beta <= alpha\<close> cutoff.
\<close>

theorem pruning_sound:
  "(\<forall>m l. evaluateBoard b \<noteq> Won m l) \<Longrightarrow> empty_cells b \<noteq> [] \<Longrightarrow>
     score (fst (minimax ai b player NegInf PosInf)) = plain_score ai b player"
  by (rule minimax_root_score)

theorem pruning_sound_witness:
  "(\<forall>m l. evaluateBoard
        [Some MarkX, Some MarkO, None, Some MarkO, Some MarkX, None, None, None, None] \<noteq> Won m l)
   \<and> empty_cells [Some MarkX, Some MarkO, None, Some MarkO, Some MarkX, None, None, None, None]
        \<noteq> []
   \<and> score (fst (minimax MarkO
        [Some MarkX, Some MarkO, None, Some MarkO, Some MarkX, None, None, None, None]
        MarkO NegInf PosInf))
      = plain_score MarkO
          [Some MarkX, Some MarkO, None, Some MarkO, Some MarkX, None, None, None, None] MarkO"
proof -
  let ?b = "[Some MarkX, Some MarkO, None, Some MarkO, Some MarkX, None, None, None, None]"
  have e: "evaluateBoard ?b = Ongoing"
    by (simp add: evaluateBoard_def WINS_def cell_def)
  then have w: "\<forall>m l. evaluateBoard ?b \<noteq> Won m l" by simp
  have n: "empty_cells ?b \<noteq> []"
    using e by (rule evaluateBoard_Ongoing_empty)
  from w n pruning_sound [OF w n, of MarkO MarkO] show ?thesis by blast
qed

section \<open>The computer never loses\<close>

text \<open>
  The index returned at a node of the computer is a child whose score without pruning
  is the score of the node, as long as the result lies inside the window.
\<close>

lemma minimax_loop_max_choice:
  assumes "set idxs \<subseteq> set (empty_cells b)"
    and "\<And>idx al be. idx \<in> set idxs \<Longrightarrow> al < be \<Longrightarrow>
           approx al be (c idx)
             (score (fst (minimax ai (set_cell b idx (Some ai)) (other ai) al be)))"
    and "al < be" and "score best \<le> al"
  shows "fst (minimax_loop ai b ai al be best idxs) = best \<or>
     (score best < score (fst (minimax_loop ai b ai al be best idxs)) \<and>
      (\<exists>i\<in>set idxs. index (fst (minimax_loop ai b ai al be best idxs)) = Some i \<and>
         (al < score (fst (minimax_loop ai b ai al be best idxs)) \<and>
          score (fst (minimax_loop ai b ai al be best idxs)) < be \<longrightarrow>
            c i = score (fst (minimax_loop ai b ai al be best idxs)))))"
  using assms
proof (induction idxs arbitrary: al best)
  case Nil
  show ?case by simp
next
  case (Cons idx rest)
  let ?s = "score (fst (minimax ai (set_cell b idx (Some ai)) (other ai) al be))"
  let ?w = "\<lparr>score = ?s, index = Some idx\<rparr>"
  let ?best = "if score best < ?s then ?w else best"
  let ?res = "fst (minimax_loop ai b ai al be best (idx # rest))"
  have b: "set_cell b idx None = b"
    using Cons.prems(1) by (simp add: set_cell_empty_None)
  have child: "approx al be (c idx) ?s"
    using Cons.prems(2,3) by simp
  have exact: "al < ?s \<and> ?s < be \<longrightarrow> c idx = ?s"
    using child by (auto simp: approx_def)
  have first: "?best = best \<or>
      (score best < score ?best \<and> index ?best = Some idx \<and> score ?best = ?s)"
    by simp
  show ?case
  proof (cases "be \<le> max al ?s")
    case True
    then have "?res = ?best"
      by (simp add: minimax_loop_Cons Let_def)
    with first exact show ?thesis by auto
  next
    case False
    then have lt: "max al ?s < be" by (simp add: not_le)
    have res: "?res = fst (minimax_loop ai b ai (max al ?s) be ?best rest)"
      using False b by (simp add: minimax_loop_Cons Let_def)
    have "fst (minimax_loop ai b ai (max al ?s) be ?best rest) = ?best \<or>
     (score ?best < score (fst (minimax_loop ai b ai (max al ?s) be ?best rest)) \<and>
      (\<exists>i\<in>set rest. index (fst (minimax_loop ai b ai (max al ?s) be ?best rest)) = Some i \<and>
         (max al ?s < score (fst (minimax_loop ai b ai (max al ?s) be ?best rest)) \<and>
          score (fst (minimax_loop ai b ai (max al ?s) be ?best rest)) < be \<longrightarrow>
            c i = score (fst (minimax_loop ai b ai (max al ?s) be ?best rest)))))"
    proof (rule Cons.IH)
      show "set rest \<subseteq> set (empty_cells b)" using Cons.prems(1) by simp
      show "\<And>idx al be. idx \<in> set rest \<Longrightarrow> al < be \<Longrightarrow>
           approx al be (c idx)
             (score (fst (minimax ai (set_cell b idx (Some ai)) (other ai) al be)))"
        using Cons.prems(2) by simp
      show "max al ?s < be" by fact
      show "score ?best \<le> max al ?s"
        using Cons.prems(4) by (auto simp: max_def)
    qed
    then have ih: "?res = ?best \<or>
       (score ?best < score ?res \<and>
        (\<exists>i\<in>set rest. index ?res = Some i \<and>
           (max al ?s < score ?res \<and> score ?res < be \<longrightarrow> c i = score ?res)))"
      unfolding res .
    show ?thesis
    proof (cases "?res = ?best")
      case True
      with first exact show ?thesis by auto
    next
      case False
      with ih obtain i where i: "score ?best < score ?res" "i \<in> set rest"
        "index ?res = Some i"
        "max al ?s < score ?res \<and> score ?res < be \<longrightarrow> c i = score ?res"
        by blast
      have ge: "score best \<le> score ?best" "?s \<le> score ?best"
        by auto
      then have "score best < score ?res" using i(1) by simp
      moreover have "al < score ?res \<and> score ?res < be \<longrightarrow> c i = score ?res"
        using i(1,4) ge(2) by (auto simp: max_def)
      ultimately show ?thesis using i(2,3) by auto
    qed
  qed
qed

lemma minimax_root_choice:
  assumes "evaluateBoard b = Ongoing"
  shows "\<exists>i\<in>set (empty_cells b).
           index (fst (minimax ai b ai NegInf PosInf)) = Some i \<and>
           plain_score ai (set_cell b i (Some ai)) (other ai) = plain_score ai b ai"
proof -
  let ?c = "\<lambda>idx. plain_score ai (set_cell b idx (Some ai)) (other ai)"
  let ?best = "\<lparr>score = NegInf,
             index = (case empty_cells b of [] \<Rightarrow> None | i # _ \<Rightarrow> Some i)\<rparr>"
  let ?res = "fst (minimax_loop ai b ai NegInf PosInf ?best (empty_cells b))"
  have m: "minimax ai b ai NegInf PosInf = minimax_loop ai b ai NegInf PosInf ?best (empty_cells b)"
    using assms by (simp add: minimax.simps)
  have fin: "score (fst (minimax ai b ai NegInf PosInf)) \<in> scores"
    by (rule minimax_score_finite)
  then have fin': "score ?res \<in> scores" by (simp add: m)
  have "?res = ?best \<or>
     (score ?best < score ?res \<and>
      (\<exists>i\<in>set (empty_cells b). index ?res = Some i \<and>
         (NegInf < score ?res \<and> score ?res < PosInf \<longrightarrow> ?c i = score ?res)))"
    by (rule minimax_loop_max_choice) (simp_all add: minimax_approx)
  moreover have "?res \<noteq> ?best"
    using fin' by (auto simp: scores_def)
  moreover have "NegInf < score ?res \<and> score ?res < PosInf"
    using fin' by (auto simp: scores_def)
  ultimately obtain i where "i \<in> set (empty_cells b)" "index ?res = Some i"
    "?c i = score ?res"
    by blast
  then show ?thesis
    using minimax_root_score [of ai b ai] by (auto simp: m)
qed

lemma fold_min_le:
  "i \<in> set idxs \<Longrightarrow> fold (\<lambda>i m. min m (c i)) idxs (x::jsnum) \<le> c i"
proof (induction idxs arbitrary: x)
  case Nil
  then show ?case by simp
next
  case (Cons j idxs)
  show ?case
  proof (cases "i = j")
    case True
    have "fold (\<lambda>i m. min m (c i)) (j # idxs) x =
        min (min x (c j)) (fold (\<lambda>i m. min m (c i)) idxs PosInf)"
      using fold_min_init [of c idxs "min x (c j)"] by simp
    then show ?thesis using True by (simp add: min_le_iff_disj)
  next
    case False
    with Cons.prems have "i \<in> set idxs" by simp
    then show ?thesis using Cons.IH by simp
  qed
qed

lemma plain_score_opponent_le:
  assumes "evaluateBoard b = Ongoing" and "p \<noteq> ai" and "i \<in> set (empty_cells b)"
  shows "plain_score ai b p \<le> plain_score ai (set_cell b i (Some p)) (other p)"
proof -
  have "plain_score ai b p =
      fold (\<lambda>i m. min m (plain_score ai (set_cell b i (Some p)) (other p))) (empty_cells b) PosInf"
    using assms(1,2) by (simp add: plain_score.simps [of ai b] Let_def step_min)
  then show ?thesis
    using fold_min_le [OF assms(3), of "\<lambda>i. plain_score ai (set_cell b i (Some p)) (other p)" PosInf]
    by simp
qed

lemma plain_score_won:
  "evaluateBoard b = Won w l \<Longrightarrow> plain_score ai b p = (if w = ai then Fin 10 else Fin (- 10))"
  by (simp add: plain_score.simps)

lemma count_marks_empty: "count_marks b + count_empty b = length b"
  unfolding count_marks_def count_empty_def
  using sum_length_filter_compl [of "\<lambda>v. v \<noteq> None" b] by simp

lemma count_marks_child:
  assumes "i \<in> set (empty_cells b)"
  shows "count_marks (set_cell b i (Some m)) = Suc (count_marks b)"
proof -
  have l: "length (set_cell b i (Some m)) = length b"
    using assms by (simp add: empty_cells_iff set_cell_in_range)
  have "count_empty b = Suc (count_empty (set_cell b i (Some m)))"
    using count_empty_set_cell_Some [of b i m] assms by (simp add: set_cell_empty_None)
  with count_marks_empty [of b] count_marks_empty [of "set_cell b i (Some m)"] l
  show ?thesis by simp
qed

lemma other_other [simp]: "other (other m) = m"
  by (cases m) simp_all

lemma other_neq [simp]: "other m \<noteq> m" "m \<noteq> other m"
  by (cases m; simp)+

text \<open>
  The boards after the first round of a game, evaluated: the opening reply leaves a
  board on which the search gives the score \<open>0\<close>.
\<close>

lemma first_round_facts:
  "\<forall>idx\<in>set [0..<9].
     evaluateBoard (set_cell (replicate 9 None) idx (Some MarkX)) = Ongoing \<and>
     selectMove MarkO (set_cell (replicate 9 None) idx (Some MarkX)) =
       (Some (if idx = 4 then 0 else 4), set_cell (replicate 9 None) idx (Some MarkX)) \<and>
     evaluateBoard (first_round idx) = Ongoing \<and>
     length (first_round idx) = 9 \<and>
     count_marks (first_round idx) = 2"
  by code_simp

lemma first_round_score_0:
  "score (fst (minimax MarkO (first_round 0) MarkX NegInf PosInf)) = Fin 0"
  by code_simp

lemma first_round_score_1:
  "score (fst (minimax MarkO (first_round 1) MarkX NegInf PosInf)) = Fin 0"
  by code_simp

lemma first_round_score_2:
  "score (fst (minimax MarkO (first_round 2) MarkX NegInf PosInf)) = Fin 0"
  by code_simp

lemma first_round_score_3:
  "score (fst (minimax MarkO (first_round 3) MarkX NegInf PosInf)) = Fin 0"
  by code_simp

lemma first_round_score_4:
  "score (fst (minimax MarkO (first_round 4) MarkX NegInf PosInf)) = Fin 0"
  by code_simp

lemma first_round_score_5:
  "score (fst (minimax MarkO (first_round 5) MarkX NegInf PosInf)) = Fin 0"
  by code_simp

lemma first_round_score_6:
  "score (fst (minimax MarkO (first_round 6) MarkX NegInf PosInf)) = Fin 0"
  by code_simp

lemma first_round_score_7:
  "score (fst (minimax MarkO (first_round 7) MarkX NegInf PosInf)) = Fin 0"
  by code_simp

lemma first_round_score_8:
  "score (fst (minimax MarkO (first_round 8) MarkX NegInf PosInf)) = Fin 0"
  by code_simp

lemma first_round_score:
  assumes "idx < 9"
  shows "score (fst (minimax MarkO (first_round idx) MarkX NegInf PosInf)) = Fin 0"
proof -
  from assms have "idx \<in> {0, 1, 2, 3, 4, 5, 6, 7, 8}" by auto
  then show ?thesis
    using first_round_score_0 first_round_score_1 first_round_score_2 first_round_score_3
      first_round_score_4 first_round_score_5 first_round_score_6 first_round_score_7
      first_round_score_8
    by (elim insertE emptyE) simp_all
qed

lemma first_move_score:
  "score (fst (minimax MarkX (set_cell (replicate 9 None) 4 (Some MarkX)) MarkO NegInf PosInf)) = Fin 0"
  by code_simp

lemma aiMove_search:
  assumes "aiMark s = other hm" and "length (board s) = 9" and "mode s = Ai"
    and "humanMark s = hm" and "current s = aiMark s" and "\<not> gameOver s"
    and "evaluateBoard (board s) = Ongoing" and "2 \<le> count_marks (board s)"
    and "Fin 0 \<le> plain_score (aiMark s) (board s) (aiMark s)"
  shows "\<exists>s'. aiMove s = Some s' \<and> unbeaten s' \<and> humanMark s' = hm"
proof -
  let ?ai = "aiMark s" and ?b = "board s"
  from minimax_root_choice [OF assms(7), of ?ai]
  obtain i where i: "i \<in> set (empty_cells ?b)"
    "index (fst (minimax ?ai ?b ?ai NegInf PosInf)) = Some i"
    "plain_score ?ai (set_cell ?b i (Some ?ai)) (other ?ai) = plain_score ?ai ?b ?ai"
    by blast
  let ?b' = "set_cell ?b i (Some ?ai)"
  have sel: "selectMove ?ai ?b = (Some i, ?b)"
    using assms(8) i(2) by (simp add: selectMove_eq)
  have len: "length ?b' = 9"
    using i(1) assms(2) by (simp add: empty_cells_iff set_cell_in_range)
  have oth: "other ?ai = hm" using assms(1) by simp
  have val: "Fin 0 \<le> plain_score ?ai ?b' hm"
    using i(3) assms(9) oth by simp
  have marks: "1 \<le> count_marks ?b'"
    using count_marks_child [OF i(1), of ?ai] by simp
  show ?thesis
  proof (cases "evaluateBoard ?b'")
    case (Won w l)
    have "w = ?ai"
      using val plain_score_won [OF Won, of ?ai hm] by (auto split: if_splits)
    then show ?thesis
      using Won sel len assms(1,3,4)
      by (cases l) (auto simp: aiMove_def placeMark_def handleEndIfAny_def unbeaten_def)
  next
    case Draw
    then show ?thesis
      using sel len assms(1,3,4)
      by (auto simp: aiMove_def placeMark_def handleEndIfAny_def unbeaten_def)
  next
    case Ongoing
    then show ?thesis
      using sel len assms(1,3,4,5,6) val marks oth
      by (auto simp: aiMove_def placeMark_def handleEndIfAny_def unbeaten_def)
  qed
qed

lemma first_click_unbeaten:
  assumes "unbeaten s" and "idx < 9" and "\<not> gameOver s"
    and "board s = replicate 9 None" and "humanMark s = MarkX"
  shows "\<exists>s'. onCellClick idx s = Some s' \<and> unbeaten s' \<and> humanMark s' = humanMark s"
proof -
  have idx: "idx \<in> set [0..<9]" using assms(2) by simp
  let ?b' = "set_cell (replicate 9 None) idx (Some MarkX)"
  from first_round_facts idx have f:
    "evaluateBoard ?b' = Ongoing"
    "selectMove MarkO ?b' = (Some (if idx = 4 then 0 else 4), ?b')"
    "evaluateBoard (first_round idx) = Ongoing"
    "length (first_round idx) = 9"
    "count_marks (first_round idx) = 2"
    by blast+
  from first_round_score assms(2)
  have "score (fst (minimax MarkO (first_round idx) MarkX NegInf PosInf)) = Fin 0"
    by blast
  then have v: "plain_score MarkO (first_round idx) MarkX = Fin 0"
    by (simp add: minimax_root_score)
  have s: "mode s = Ai" "aiMark s = MarkO" "current s = MarkX"
    using assms(1,3,5) by (simp_all add: unbeaten_def)
  have c: "cell (board s) idx = None"
    using assms(2,4) by (simp add: cell_def)
  have fr: "set_cell ?b' (if idx = 4 then 0 else 4) (Some MarkO) = first_round idx"
    by (simp add: first_round_def)
  have "onCellClick idx s =
      Some (s\<lparr>board := first_round idx, current := MarkX\<rparr>)"
    using assms(3,4,5) s c f(1,2,3) fr
    by (simp add: onCellClick_def placeMark_def handleEndIfAny_def aiMove_def Let_def)
  moreover have "unbeaten (s\<lparr>board := first_round idx, current := MarkX\<rparr>)"
    using assms(3,5) s f(3,4,5) v by (simp add: unbeaten_def)
  ultimately show ?thesis by simp
qed

lemma click_unbeaten:
  assumes "unbeaten s" and "idx < 9"
  shows "\<exists>s'. onCellClick idx s = Some s' \<and> unbeaten s' \<and> humanMark s' = humanMark s"
proof (cases "gameOver s \<or> cell (board s) idx \<noteq> None")
  case True
  then have "onCellClick idx s = Some s"
    by (auto simp: onCellClick_def)
  with assms(1) show ?thesis by simp
next
  case False
  then have open_game: "\<not> gameOver s" and c: "cell (board s) idx = None" by simp_all
  let ?hm = "humanMark s" and ?ai = "aiMark s" and ?b = "board s"
  have s: "mode s = Ai" "?ai = other ?hm" "length ?b = 9" "current s = ?hm"
    "evaluateBoard ?b = Ongoing"
    using assms(1) open_game by (simp_all add: unbeaten_def)
  show ?thesis
  proof (cases "?b = replicate 9 None \<and> ?hm = MarkX")
    case True
    with assms open_game show ?thesis by (intro first_click_unbeaten) simp_all
  next
    case False
    with assms(1) open_game have m: "1 \<le> count_marks ?b"
      and v: "Fin 0 \<le> plain_score ?ai ?b ?hm"
      by (auto simp: unbeaten_def)
    have idx: "idx \<in> set (empty_cells ?b)"
      using c assms(2) s(3) by (simp add: empty_cells_iff cell_def)
    let ?b' = "set_cell ?b idx (Some ?hm)"
    have len: "length ?b' = 9"
      using idx s(3) by (simp add: empty_cells_iff set_cell_in_range)
    have "plain_score ?ai ?b ?hm \<le> plain_score ?ai ?b' (other ?hm)"
      using s(5) idx by (intro plain_score_opponent_le) (simp_all add: s(2))
    with v have v': "Fin 0 \<le> plain_score ?ai ?b' ?ai"
      by (simp add: s(2))
    show ?thesis
    proof (cases "evaluateBoard ?b'")
      case (Won w l)
      have "w = ?ai"
        using v' plain_score_won [OF Won, of ?ai ?ai] by (auto split: if_splits)
      then show ?thesis
        using Won open_game c s len
        by (cases l)
          (auto simp: onCellClick_def placeMark_def handleEndIfAny_def unbeaten_def)
    next
      case Draw
      then show ?thesis
        using open_game c s len
        by (auto simp: onCellClick_def placeMark_def handleEndIfAny_def unbeaten_def)
    next
      case Ongoing
      let ?s' = "s\<lparr>board := ?b', current := other ?hm\<rparr>"
      have click: "onCellClick idx s = aiMove ?s'"
        using Ongoing open_game c s
        by (simp add: onCellClick_def placeMark_def handleEndIfAny_def Let_def)
      have "\<exists>s''. aiMove ?s' = Some s'' \<and> unbeaten s'' \<and> humanMark s'' = ?hm"
      proof (rule aiMove_search)
        show "aiMark ?s' = other ?hm" using s(2) by simp
        show "length (board ?s') = 9" using len by simp
        show "mode ?s' = Ai" using s(1) by simp
        show "humanMark ?s' = ?hm" by simp
        show "current ?s' = aiMark ?s'" using s(2) by simp
        show "\<not> gameOver ?s'" using open_game by simp
        show "evaluateBoard (board ?s') = Ongoing" using Ongoing by simp
        show "2 \<le> count_marks (board ?s')"
          using count_marks_child [OF idx, of ?hm] m by simp
        show "Fin 0 \<le> plain_score (aiMark ?s') (board ?s') (aiMark ?s')"
          using v' by simp
      qed
      with click show ?thesis by simp
    qed
  qed
qed

lemma clicks_unbeaten:
  assumes "unbeaten s" and "\<forall>i\<in>set cs. i < 9"
  shows "\<exists>s'. clicks cs s = Some s' \<and> unbeaten s' \<and> humanMark s' = humanMark s"
  using assms
proof (induction cs arbitrary: s)
  case Nil
  then show ?case by simp
next
  case (Cons idx cs)
  then obtain s1 where s1: "onCellClick idx s = Some s1" "unbeaten s1"
    "humanMark s1 = humanMark s"
    using click_unbeaten [of s idx] by auto
  with Cons.IH [of s1] Cons.prems(2) show ?case by simp
qed

lemma init_unbeaten: "\<exists>s. init Ai hm = Some s \<and> unbeaten s \<and> humanMark s = hm"
proof (cases hm)
  case MarkX
  have "evaluateBoard (replicate 9 None) = Ongoing"
    by code_simp
  with MarkX show ?thesis
    by (simp add: init_def unbeaten_def Let_def)
next
  case MarkO
  let ?b = "set_cell (replicate 9 None) 4 (Some MarkX)"
  have sel: "selectMove MarkX (replicate 9 None) = (Some 4, replicate 9 None)"
    by code_simp
  have e: "evaluateBoard ?b = Ongoing"
    by code_simp
  have "plain_score MarkX ?b MarkO = Fin 0"
    using first_move_score by (simp add: minimax_root_score)
  moreover have "count_marks ?b = 1" "length ?b = 9"
    by code_simp+
  ultimately show ?thesis
    using MarkO sel e
    by (simp add: init_def Let_def aiMove_def placeMark_def handleEndIfAny_def unbeaten_def)
qed

text \<open>
  C1. In a game against the computer, whatever cells the human player clicks, every
  move of the computer is made by the move selector without an exception, and the board
  is never won by the human player: a finished game is a draw or won by the computer,
  and a game that is not finished is ongoing.
\<close>

theorem unbeatable:
  assumes "\<forall>i\<in>set cs. i < 9"
  shows "\<exists>s. play hm cs = Some s \<and> aiMark s = other hm \<and>
           (\<forall>l. evaluateBoard (board s) \<noteq> Won hm l) \<and>
           (if gameOver s
            then evaluateBoard (board s) = Draw \<or> (\<exists>l. evaluateBoard (board s) = Won (aiMark s) l)
            else evaluateBoard (board s) = Ongoing)"
proof -
  obtain s0 where s0: "init Ai hm = Some s0" "unbeaten s0" "humanMark s0 = hm"
    using init_unbeaten by blast
  with clicks_unbeaten [OF s0(2) assms] obtain s where
    s: "clicks cs s0 = Some s" "unbeaten s" "humanMark s = hm"
    by auto
  have "play hm cs = Some s" using s0(1) s(1) by (simp add: play_def)
  moreover have "aiMark s = other hm" using s(2,3) by (simp add: unbeaten_def)
  moreover have "\<forall>l. evaluateBoard (board s) \<noteq> Won hm l"
    using s(2,3) by (auto simp: unbeaten_def split: if_splits)
  moreover have "if gameOver s
            then evaluateBoard (board s) = Draw \<or> (\<exists>l. evaluateBoard (board s) = Won (aiMark s) l)
            else evaluateBoard (board s) = Ongoing"
    using s(2) by (auto simp: unbeaten_def)
  ultimately show ?thesis by blast
qed

theorem unbeatable_witness:
  "play MarkX [0, 8, 7, 2, 3] =
     Some \<lparr>board = [Some MarkX, Some MarkO, Some MarkX, Some MarkX, Some MarkO,
                     Some MarkO, Some MarkO, Some MarkX, Some MarkX],
           current = MarkX, gameOver = True, mode = Ai, humanMark = MarkX, aiMark = MarkO\<rparr>
   \<and> (\<exists>s. play MarkX [0, 8, 7, 2, 3] = Some s \<and> aiMark s = other MarkX \<and>
          (\<forall>l. evaluateBoard (board s) \<noteq> Won MarkX l) \<and>
          (if gameOver s
           then evaluateBoard (board s) = Draw \<or>
                (\<exists>l. evaluateBoard (board s) = Won (aiMark s) l)
           else evaluateBoard (board s) = Ongoing))"
proof -
  have "play MarkX [0, 8, 7, 2, 3] =
     Some \<lparr>board = [Some MarkX, Some MarkO, Some MarkX, Some MarkX, Some MarkO,
                     Some MarkO, Some MarkO, Some MarkX, Some MarkX],
           current = MarkX, gameOver = True, mode = Ai, humanMark = MarkX, aiMark = MarkO\<rparr>"
    by code_simp
  moreover have "\<forall>i\<in>set [0, 8, 7, 2, 3]. i < (9::nat)" by simp
  ultimately show ?thesis
    using unbeatable [of "[0, 8, 7, 2, 3]" MarkX] by blast
qed

end
